theory Spec2Isabelle
  imports Main "HOL-Library.AList" "HOL-Library.Sublist" "HOL-Library.Word"
begin

section \<open>Nodes, and the heap they live in\<close>

text \<open>
  The trie of \<^verbatim>\<open>src/trie/src.hpp\<close> is a graph of reference-counted nodes:
  \<^verbatim>\<open>std::shared_ptr<const TrieNode>\<close> links, shared between versions.  \<^verbatim>\<open>Trie::operator==\<close>
  compares root pointers, and \<^verbatim>\<open>Put\<close>/\<open>Remove\<close> write into freshly cloned nodes, so node
  identity is part of the behaviour.  The model keeps an explicit heap: a list of nodes,
  the address of a node being its index.  Allocation (\<^verbatim>\<open>make_unique\<close>, \<^verbatim>\<open>make_shared\<close>)
  appends a node and returns the new index; nothing is ever freed, which is the behaviour
  of reference counting as long as only live nodes are looked at.

  A node is a \<^verbatim>\<open>TrieNode\<close> or a \<^verbatim>\<open>TrieNodeWithValue<T>\<close>.  The field \<open>node_value\<close> of the model (\<^verbatim>\<open>value_\<close>, with the type)
  is \<open>None\<close> for the former and \<open>Some (T, v)\<close> for the latter: \<open>T\<close> stands for the dynamic
  type that \<^verbatim>\<open>dynamic_cast\<close> and the virtual \<^verbatim>\<open>Clone\<close> look at, \<open>v\<close> for the stored value.
  \<open>is_value_node\<close> is the boolean field of the base class, which the code sets and
  clears on its own.  \<open>children\<close> is the \<^verbatim>\<open>std::map<char, shared_ptr>\<close>, as an
  association list read with \<open>map_of\<close>.
\<close>

type_synonym addr = nat

record ('ty, 'v) TrieNode =
  children :: "(char \<times> addr) list"
  is_value_node :: bool
  node_value :: "('ty \<times> 'v) option"

type_synonym ('ty, 'v) heap = "('ty, 'v) TrieNode list"

datatype error = NullDereference | BackOfEmptyVector

text \<open>\<^verbatim>\<open>TrieNode()\<close>: no children, \<^verbatim>\<open>is_value_node{false}\<close>.\<close>

definition TrieNode0 :: "('ty, 'v) TrieNode" where
  "TrieNode0 = \<lparr>children = [], is_value_node = False, node_value = None\<rparr>"

text \<open>\<^verbatim>\<open>TrieNode(children)\<close>.\<close>

definition TrieNode1 :: "(char \<times> addr) list \<Rightarrow> ('ty, 'v) TrieNode" where
  "TrieNode1 cs = \<lparr>children = cs, is_value_node = False, node_value = None\<rparr>"

text \<open>\<^verbatim>\<open>TrieNodeWithValue<T>(children, value)\<close>: the constructor sets the flag.\<close>

definition TrieNodeWithValue :: "(char \<times> addr) list \<Rightarrow> 'ty \<Rightarrow> 'v \<Rightarrow> ('ty, 'v) TrieNode" where
  "TrieNodeWithValue cs T v =
     \<lparr>children = cs, is_value_node = True, node_value = Some (T, v)\<rparr>"

text \<open>
  The virtual \<^verbatim>\<open>Clone\<close>: dispatch is on the dynamic type, and both overrides build the
  copy with a constructor, so the flag of the copy is the constructor's, not the
  original's.
\<close>

definition Clone :: "('ty, 'v) TrieNode \<Rightarrow> ('ty, 'v) TrieNode" where
  "Clone n = (case node_value n of
                None \<Rightarrow> TrieNode1 (children n)
              | Some (T, v) \<Rightarrow> TrieNodeWithValue (children n) T v)"

definition alloc :: "('ty, 'v) heap \<Rightarrow> ('ty, 'v) TrieNode \<Rightarrow> ('ty, 'v) heap \<times> addr" where
  "alloc h n = (h @ [n], length h)"

text \<open>\<^verbatim>\<open>p->children[c] = a\<close> and \<^verbatim>\<open>p->children.erase(c)\<close>.\<close>

definition set_child :: "('ty, 'v) heap \<Rightarrow> addr \<Rightarrow> char \<Rightarrow> addr \<Rightarrow> ('ty, 'v) heap" where
  "set_child h p c a = h[p := (h ! p)\<lparr>children := AList.update c a (children (h ! p))\<rparr>]"

definition erase_child :: "('ty, 'v) heap \<Rightarrow> addr \<Rightarrow> char \<Rightarrow> ('ty, 'v) heap" where
  "erase_child h p c = h[p := (h ! p)\<lparr>children := AList.delete c (children (h ! p))\<rparr>]"

section \<open>Trie\<close>

text \<open>A \<^verbatim>\<open>Trie\<close> is its root pointer; \<open>None\<close> is \<^verbatim>\<open>nullptr\<close>.  Equality of the datatype is
  \<^verbatim>\<open>operator==\<close>: equality of the root pointers.\<close>

datatype Trie = Trie (root: "addr option")

subsection \<open>Get\<close>

text \<open>The loop of \<^verbatim>\<open>Get\<close> (lines 127-131): follow one child link per character.\<close>

fun walk :: "('ty, 'v) heap \<Rightarrow> addr \<Rightarrow> string \<Rightarrow> addr option" where
  "walk h cur [] = Some cur"
| "walk h cur (c # cs) =
     (case map_of (children (h ! cur)) c of
        None \<Rightarrow> None
      | Some nxt \<Rightarrow> walk h nxt cs)"

text \<open>\<^verbatim>\<open>dynamic_cast<const TrieNodeWithValue<T>*>\<close>: the value if the node's dynamic type is
  \<^verbatim>\<open>TrieNodeWithValue<T>\<close>, a null pointer otherwise.\<close>

definition value_as :: "'ty \<Rightarrow> ('ty, 'v) TrieNode \<Rightarrow> 'v option" where
  "value_as T n = (case node_value n of
                     None \<Rightarrow> None
                   | Some (T', v) \<Rightarrow> if T' = T then Some v else None)"

definition Get :: "('ty, 'v) heap \<Rightarrow> Trie \<Rightarrow> 'ty \<Rightarrow> string \<Rightarrow> 'v option" where
  "Get h t T key =
     (case root t of
        None \<Rightarrow> None
      | Some r \<Rightarrow>
          (case walk h r key of
             None \<Rightarrow> None
           | Some cur \<Rightarrow> value_as T (h ! cur)))"

subsection \<open>Put\<close>

text \<open>
  The loop of \<^verbatim>\<open>Put\<close> (lines 146-156).  \<open>cur\<close> is always a node this call allocated.
  \<open>copy\<close> is the pointer the loop sets in its last iteration (\<^verbatim>\<open>i == len - 1\<close>: no
  character is left after this one); it starts as \<^verbatim>\<open>nullptr\<close>.
\<close>

fun Put_loop ::
  "('ty, 'v) heap \<Rightarrow> addr \<Rightarrow> addr option \<Rightarrow> string \<Rightarrow> ('ty, 'v) heap \<times> addr \<times> addr option"
where
  "Put_loop h cur copy [] = (h, cur, copy)"
| "Put_loop h cur copy (c # cs) =
     (let (h1, a) = (case map_of (children (h ! cur)) c of
                       None \<Rightarrow> alloc h TrieNode0
                     | Some child \<Rightarrow> alloc h (Clone (h ! child)));
          h2 = set_child h1 cur c a;
          copy' = (if cs = [] then Some cur else copy)
      in Put_loop h2 a copy' cs)"

text \<open>
  \<^verbatim>\<open>Put\<close> (lines 139-163).  After the loop the code writes through \<open>copy\<close> without a
  check: with an empty key the loop has not run, \<open>copy\<close> is still \<^verbatim>\<open>nullptr\<close>, and the
  write is a null dereference.
\<close>

definition Put ::
  "('ty, 'v) heap \<Rightarrow> Trie \<Rightarrow> 'ty \<Rightarrow> string \<Rightarrow> 'v \<Rightarrow> error + (('ty, 'v) heap \<times> Trie)"
where
  "Put h t T key v =
     (let (h1, new_root) = (case root t of
                              Some r \<Rightarrow> alloc h (Clone (h ! r))
                            | None \<Rightarrow> alloc h TrieNode0);
          (h2, cur, copy) = Put_loop h1 new_root None key;
          (h3, val_node) = alloc h2 (TrieNodeWithValue (children (h2 ! cur)) T v)
      in case copy of
           None \<Rightarrow> Inl NullDereference
         | Some p \<Rightarrow> Inr (set_child h3 p (key ! (length key - 1)) val_node, Trie (Some new_root)))"

subsection \<open>Remove\<close>

text \<open>
  The first loop of \<^verbatim>\<open>Remove\<close> (lines 175-182): clone the path, pushing each parent on
  \<open>path\<close>.  The result is the heap, and \<open>None\<close> where the loop leaves the function with
  \<^verbatim>\<open>return *this\<close>, or the last node and the path.
\<close>

fun Remove_loop ::
  "('ty, 'v) heap \<Rightarrow> addr \<Rightarrow> addr list \<Rightarrow> string \<Rightarrow> ('ty, 'v) heap \<times> (addr \<times> addr list) option"
where
  "Remove_loop h cur path [] = (h, Some (cur, path))"
| "Remove_loop h cur path (c # cs) =
     (case map_of (children (h ! cur)) c of
        None \<Rightarrow> (h, None)
      | Some child \<Rightarrow>
          (let (h1, a) = alloc h (Clone (h ! child));
               h2 = set_child h1 cur c a
           in Remove_loop h2 a (path @ [cur]) cs))"

text \<open>
  \<^verbatim>\<open>int i = path.size() - 1\<close>: the subtraction is in \<^verbatim>\<open>size_t\<close> (64 bits), the result is
  narrowed to a 32-bit \<^verbatim>\<open>int\<close>.
\<close>

definition cleanup_start :: "addr list \<Rightarrow> int" where
  "cleanup_start path = sint (ucast ((word_of_nat (length path) :: 64 word) - 1) :: 32 word)"

text \<open>The second loop of \<^verbatim>\<open>Remove\<close> (lines 197-205), \<open>i\<close> counting down.\<close>

function cleanup :: "('ty, 'v) heap \<Rightarrow> addr list \<Rightarrow> string \<Rightarrow> int \<Rightarrow> ('ty, 'v) heap" where
  "cleanup h path key i =
     (if i \<ge> 0 then
        (if children (h ! (path ! nat i)) = [] \<and> \<not> is_value_node (h ! (path ! nat i)) then
           cleanup (if i > 0 then erase_child h (path ! nat (i - 1)) (key ! nat (i - 1)) else h)
                   path key (i - 1)
         else h)
      else h)"
  by pat_completeness auto
termination
  by (relation "measure (\<lambda>(h, path, key, i). nat (i + 1))") auto

declare cleanup.simps [simp del]

text \<open>
  The rest of \<^verbatim>\<open>Remove\<close> after its first loop (lines 184-207).  \<^verbatim>\<open>return *this\<close> gives
  back the receiver's own root pointer.  \<^verbatim>\<open>path.back()\<close> is written without a check: on
  an empty \<open>path\<close> (an empty key) it is undefined behaviour.
\<close>

definition Remove_tail ::
  "('ty, 'v) heap \<Rightarrow> Trie \<Rightarrow> addr \<Rightarrow> addr \<Rightarrow> addr list \<Rightarrow> string
     \<Rightarrow> error + (('ty, 'v) heap \<times> Trie)"
where
  "Remove_tail h2 t new_root cur path key =
     (if \<not> is_value_node (h2 ! cur) then Inr (h2, t)
      else if children (h2 ! cur) \<noteq> [] then
        (let (h3, normal_node) = alloc h2 (TrieNode1 (children (h2 ! cur))) in
         if path = [] then Inl BackOfEmptyVector
         else Inr (set_child h3 (last path) (key ! (length key - 1)) normal_node,
                   Trie (Some new_root)))
      else
        (let h3 = h2[cur := (h2 ! cur)\<lparr>is_value_node := False\<rparr>] in
         if path = [] then Inl BackOfEmptyVector
         else
           (let h4 = erase_child h3 (last path) (key ! (length key - 1))
            in Inr (cleanup h4 path key (cleanup_start path), Trie (Some new_root)))))"

text \<open>\<^verbatim>\<open>Remove\<close> (lines 167-208).\<close>

definition Remove ::
  "('ty, 'v) heap \<Rightarrow> Trie \<Rightarrow> string \<Rightarrow> error + (('ty, 'v) heap \<times> Trie)"
where
  "Remove h t key =
     (case root t of
        None \<Rightarrow> Inr (h, t)
      | Some r \<Rightarrow>
          (let (h1, new_root) = alloc h (Clone (h ! r)) in
           case Remove_loop h1 new_root [] key of
             (h2, None) \<Rightarrow> Inr (h2, t)
           | (h2, Some (cur, path)) \<Rightarrow> Remove_tail h2 t new_root cur path key))"

section \<open>TrieStore\<close>

text \<open>
  The store is the vector of snapshots; the nodes of all of them live in one heap.  The two
  mutexes order the operations of different threads and have no effect on what one
  operation computes, so an operation is a function from the state before to the state
  after.  \<^verbatim>\<open>size_t\<close> values are natural numbers below \<open>2 ^ 64\<close>; the one place where
  \<^verbatim>\<open>size_t\<close> arithmetic can wrap is \<^verbatim>\<open>size() - 1\<close>, written out in \<open>size_minus_1\<close>.
\<close>

record ('ty, 'v) TrieStore =
  nodes :: "('ty, 'v) heap"
  snapshots :: "Trie list"

text \<open>\<^verbatim>\<open>std::vector<Trie> snapshots_{1}\<close>: one default-constructed (empty) trie.\<close>

definition TrieStore0 :: "('ty, 'v) TrieStore" where
  "TrieStore0 = \<lparr>nodes = [], snapshots = [Trie None]\<rparr>"

definition SIZE_MAX :: nat where
  "SIZE_MAX = 18446744073709551615"

definition size_minus_1 :: "nat \<Rightarrow> nat" where
  "size_minus_1 n = (if n = 0 then SIZE_MAX else n - 1)"

datatype 'v ValueGuard = ValueGuard (guard_root: Trie) (guard_value: 'v)

text \<open>\<^verbatim>\<open>TrieStore::Get\<close> (lines 235-248); the default argument is \<^verbatim>\<open>size_t(-1)\<close>.\<close>

definition Store_Get ::
  "('ty, 'v) TrieStore \<Rightarrow> 'ty \<Rightarrow> string \<Rightarrow> nat \<Rightarrow> 'v ValueGuard option"
where
  "Store_Get s T key version =
     (let version = (if version = SIZE_MAX then size_minus_1 (length (snapshots s)) else version)
      in if version \<ge> length (snapshots s) then None
         else (let trie = snapshots s ! version in
               case Get (nodes s) trie T key of
                 None \<Rightarrow> None
               | Some val \<Rightarrow> Some (ValueGuard trie val)))"

definition Store_Get_latest ::
  "('ty, 'v) TrieStore \<Rightarrow> 'ty \<Rightarrow> string \<Rightarrow> 'v ValueGuard option"
where
  "Store_Get_latest s T key = Store_Get s T key SIZE_MAX"

text \<open>\<^verbatim>\<open>TrieStore::Put\<close> (lines 255-271).  \<^verbatim>\<open>snapshots_.back()\<close> on an empty vector is
  undefined behaviour; a failure of \<^verbatim>\<open>Trie::Put\<close> ends the operation.\<close>

definition Store_Put ::
  "('ty, 'v) TrieStore \<Rightarrow> 'ty \<Rightarrow> string \<Rightarrow> 'v \<Rightarrow> error + (('ty, 'v) TrieStore \<times> nat)"
where
  "Store_Put s T key v =
     (if snapshots s = [] then Inl BackOfEmptyVector
      else (let current_version = last (snapshots s) in
            case Put (nodes s) current_version T key v of
              Inl e \<Rightarrow> Inl e
            | Inr (h, new_trie) \<Rightarrow>
                (let snaps = snapshots s @ [new_trie]
                 in Inr (\<lparr>nodes = h, snapshots = snaps\<rparr>, size_minus_1 (length snaps)))))"

text \<open>\<^verbatim>\<open>TrieStore::Remove\<close> (lines 276-292).\<close>

definition Store_Remove ::
  "('ty, 'v) TrieStore \<Rightarrow> string \<Rightarrow> error + (('ty, 'v) TrieStore \<times> nat)"
where
  "Store_Remove s key =
     (if snapshots s = [] then Inl BackOfEmptyVector
      else (let current_version = last (snapshots s) in
            case Remove (nodes s) current_version key of
              Inl e \<Rightarrow> Inl e
            | Inr (h, new_trie) \<Rightarrow>
                if new_trie = current_version
                then Inr (\<lparr>nodes = h, snapshots = snapshots s\<rparr>,
                          size_minus_1 (length (snapshots s)))
                else (let snaps = snapshots s @ [new_trie]
                      in Inr (\<lparr>nodes = h, snapshots = snaps\<rparr>, size_minus_1 (length snaps)))))"

text \<open>\<^verbatim>\<open>get_version\<close> (lines 295-298).\<close>

definition get_version :: "('ty, 'v) TrieStore \<Rightarrow> nat" where
  "get_version s = size_minus_1 (length (snapshots s))"

text \<open>A sequence of writes, stopping at the first failure.\<close>

datatype ('ty, 'v) write_op = WPut 'ty string 'v | WRemove string

fun apply_write ::
  "('ty, 'v) TrieStore \<Rightarrow> ('ty, 'v) write_op \<Rightarrow> error + (('ty, 'v) TrieStore \<times> nat)"
where
  "apply_write s (WPut T key v) = Store_Put s T key v"
| "apply_write s (WRemove key) = Store_Remove s key"

fun apply_writes ::
  "('ty, 'v) TrieStore \<Rightarrow> ('ty, 'v) write_op list \<Rightarrow> error + ('ty, 'v) TrieStore"
where
  "apply_writes s [] = Inr s"
| "apply_writes s (w # ws) =
     (case apply_write s w of
        Inl e \<Rightarrow> Inl e
      | Inr (s', n) \<Rightarrow> apply_writes s' ws)"

section \<open>Well-formed heaps and tries\<close>

text \<open>
  A \<^verbatim>\<open>shared_ptr\<close> never dangles: every address stored in a \<open>children\<close> map or in a root
  is the address of an allocated node.  In the model that is \<open>heap_closed\<close>, and the
  functions above are only meaningful on closed heaps.  \<open>trie_ok\<close> adds what holds of
  every root the program can build: it is allocated, and it carries no value (the only
  operation that could store one, \<open>Put\<close> with the empty key, fails).  \<open>store_ok\<close> is
  the same for a store: it has a version, and all its versions are well formed.
\<close>

definition kids_below :: "nat \<Rightarrow> ('ty, 'v) TrieNode \<Rightarrow> bool" where
  "kids_below m n = (\<forall>(c, b) \<in> set (children n). b < m)"

definition heap_closed :: "('ty, 'v) heap \<Rightarrow> bool" where
  "heap_closed h = (\<forall>n \<in> set h. kids_below (length h) n)"

definition kids_from :: "nat \<Rightarrow> ('ty, 'v) heap \<Rightarrow> bool" where
  "kids_from k h \<longleftrightarrow> (\<forall>b. k \<le> b \<and> b < length h \<longrightarrow> kids_below (length h) (h ! b))"

definition trie_ok :: "('ty, 'v) heap \<Rightarrow> Trie \<Rightarrow> bool" where
  "trie_ok h t \<longleftrightarrow>
     heap_closed h \<and>
     (case root t of None \<Rightarrow> True | Some r \<Rightarrow> r < length h \<and> node_value (h ! r) = None)"

definition store_ok :: "('ty, 'v) TrieStore \<Rightarrow> bool" where
  "store_ok s \<longleftrightarrow> snapshots s \<noteq> [] \<and> (\<forall>t \<in> set (snapshots s). trie_ok (nodes s) t)"

section \<open>What a trie holds\<close>

text \<open>
  The vocabulary of the claims.  \<open>terminal\<close> is the node a key resolves to, if the path
  exists; \<open>link_missing\<close> says that some link of the path is absent, the root link of the
  empty trie included; \<open>trie_lookup\<close> is the typed value stored under a key, if any.
\<close>

definition terminal :: "('ty, 'v) heap \<Rightarrow> Trie \<Rightarrow> string \<Rightarrow> addr option" where
  "terminal h t key = (case root t of None \<Rightarrow> None | Some r \<Rightarrow> walk h r key)"

definition link_missing :: "('ty, 'v) heap \<Rightarrow> Trie \<Rightarrow> string \<Rightarrow> bool" where
  "link_missing h t key \<longleftrightarrow>
     root t = None \<or>
     (\<exists>i<length key. \<exists>a. terminal h t (take i key) = Some a
                          \<and> map_of (children (h ! a)) (key ! i) = None)"

definition lookup :: "('ty, 'v) heap \<Rightarrow> addr \<Rightarrow> string \<Rightarrow> ('ty \<times> 'v) option" where
  "lookup h a key = (case walk h a key of None \<Rightarrow> None | Some b \<Rightarrow> node_value (h ! b))"

definition trie_lookup :: "('ty, 'v) heap \<Rightarrow> Trie \<Rightarrow> string \<Rightarrow> ('ty \<times> 'v) option" where
  "trie_lookup h t key = (case root t of None \<Rightarrow> None | Some r \<Rightarrow> lookup h r key)"

text \<open>
  The pruning invariant of the specification: no node of the trie is without a value and
  without children.  \<open>pruned\<close> is the invariant as the specification words it, for every
  node that a key reaches from the root; \<open>pruned_below_root\<close> leaves the root out.
\<close>

definition nonempty_node :: "('ty, 'v) TrieNode \<Rightarrow> bool" where
  "nonempty_node n \<longleftrightarrow> children n \<noteq> [] \<or> node_value n \<noteq> None"

definition below_ok :: "('ty, 'v) heap \<Rightarrow> addr \<Rightarrow> bool" where
  "below_ok h a \<longleftrightarrow>
     (\<forall>key b. key \<noteq> [] \<longrightarrow> walk h a key = Some b \<longrightarrow> nonempty_node (h ! b))"

definition pruned :: "('ty, 'v) heap \<Rightarrow> Trie \<Rightarrow> bool" where
  "pruned h t \<longleftrightarrow>
     (case root t of
        None \<Rightarrow> True
      | Some r \<Rightarrow> (\<forall>key a. walk h r key = Some a \<longrightarrow> nonempty_node (h ! a)))"

definition pruned_below_root :: "('ty, 'v) heap \<Rightarrow> Trie \<Rightarrow> bool" where
  "pruned_below_root h t \<longleftrightarrow> (case root t of None \<Rightarrow> True | Some r \<Rightarrow> below_ok h r)"

section \<open>The path-copying loops as recursive functions\<close>

text \<open>
  The loops of \<open>Put\<close> and \<open>Remove\<close> work on the node allocated last.  The functions of
  this section say the same computation by recursion on the key, the work that the source
  does after its loop moved to the innermost call; they are proved equal to the loops
  below and carry the inductions.
\<close>

definition child_copy :: "('ty, 'v) heap \<Rightarrow> addr \<Rightarrow> char \<Rightarrow> ('ty, 'v) TrieNode" where
  "child_copy h cur c = (case map_of (children (h ! cur)) c of
                           None \<Rightarrow> TrieNode0
                         | Some child \<Rightarrow> Clone (h ! child))"

definition root_copy :: "('ty, 'v) heap \<Rightarrow> Trie \<Rightarrow> ('ty, 'v) TrieNode" where
  "root_copy h t = (case root t of Some r \<Rightarrow> Clone (h ! r) | None \<Rightarrow> TrieNode0)"

text \<open>\<open>cur\<close> is the last node of \<open>h\<close>, above a closed heap \<open>h0\<close> that it points into.\<close>

definition path_state :: "('ty, 'v) heap \<Rightarrow> ('ty, 'v) heap \<Rightarrow> addr \<Rightarrow> bool" where
  "path_state h0 h cur \<longleftrightarrow>
     heap_closed h0 \<and> prefix h0 h \<and> length h0 \<le> cur \<and> length h = Suc cur \<and>
     kids_below (length h0) (h ! cur)"

fun put_path :: "('ty, 'v) heap \<Rightarrow> addr \<Rightarrow> string \<Rightarrow> 'ty \<Rightarrow> 'v \<Rightarrow> ('ty, 'v) heap" where
  "put_path h cur [] T v = h"
| "put_path h cur (c # cs) T v =
     (let (h1, a) = (case map_of (children (h ! cur)) c of
                       None \<Rightarrow> alloc h TrieNode0
                     | Some child \<Rightarrow> alloc h (Clone (h ! child)));
          h2 = set_child h1 cur c a
      in if cs = [] then
           (let (h3, val_node) = alloc h2 (TrieNodeWithValue (children (h2 ! a)) T v)
            in set_child h3 cur c val_node)
         else put_path h2 a cs T v)"

text \<open>
  \<open>remove_path\<close> returns the heap and what is left to do on the way back: nothing was
  removed and the receiver is returned (\<open>Abort\<close>), the new trie is finished (\<open>Done\<close>), or
  the node just left has lost its only child and the cleaning loop is looking at it
  (\<open>Prune\<close>).  The flag \<open>pr\<close> says whether the cleaning loop runs from the end of the
  path; it does not when the length of the path does not fit the loop's \<^verbatim>\<open>int\<close> index.
\<close>

datatype status = Abort | Done | Prune

fun remove_path :: "bool \<Rightarrow> ('ty, 'v) heap \<Rightarrow> addr \<Rightarrow> string \<Rightarrow> ('ty, 'v) heap \<times> status" where
  "remove_path pr h cur [] = (h, Abort)"
| "remove_path pr h cur (c # cs) =
     (case map_of (children (h ! cur)) c of
        None \<Rightarrow> (h, Abort)
      | Some child \<Rightarrow>
          (let (h1, a) = alloc h (Clone (h ! child));
               h2 = set_child h1 cur c a
           in if cs = [] then
                (if \<not> is_value_node (h2 ! a) then (h2, Abort)
                 else if children (h2 ! a) \<noteq> [] then
                   (let (h3, normal_node) = alloc h2 (TrieNode1 (children (h2 ! a)))
                    in (set_child h3 cur c normal_node, Done))
                 else (erase_child (h2[a := (h2 ! a)\<lparr>is_value_node := False\<rparr>]) cur c, Prune))
              else
                (case remove_path pr h2 a cs of
                   (h', Prune) \<Rightarrow>
                     if pr \<and> children (h' ! a) = [] \<and> \<not> is_value_node (h' ! a)
                     then (erase_child h' cur c, Prune)
                     else (h', Done)
                 | (h', st) \<Rightarrow> (h', st))))"

definition after_path ::
  "('ty, 'v) heap \<times> status \<Rightarrow> Trie \<Rightarrow> addr \<Rightarrow> addr list \<Rightarrow> string \<Rightarrow> nat
     \<Rightarrow> error + (('ty, 'v) heap \<times> Trie)"
where
  "after_path r t new_root path key i =
     (case r of
        (hf, Abort) \<Rightarrow> Inr (hf, t)
      | (hf, Done) \<Rightarrow> Inr (hf, Trie (Some new_root))
      | (hf, Prune) \<Rightarrow> Inr (cleanup hf path key (int i), Trie (Some new_root)))"

section \<open>Two tries and two stores to compute with\<close>

text \<open>
  The heap after \<open>Put<int>("a", 100)\<close> on the empty trie, and after \<open>Put<int>("ab", 200)\<close>
  on the result; the type tag of a value is the name of its type.  Node 1 and node 5 are
  the plain nodes that the loop of \<open>Put\<close> allocates for the last character before the
  value node replaces them; nothing points to them.
\<close>

definition heap_a :: "(string, int) heap" where
  "heap_a =
     [\<lparr>children = [(CHR ''a'', 2)], is_value_node = False, node_value = None\<rparr>,
      \<lparr>children = [], is_value_node = False, node_value = None\<rparr>,
      \<lparr>children = [], is_value_node = True, node_value = Some (''int'', 100)\<rparr>]"

definition heap_ab :: "(string, int) heap" where
  "heap_ab = heap_a @
     [\<lparr>children = [(CHR ''a'', 4)], is_value_node = False, node_value = None\<rparr>,
      \<lparr>children = [(CHR ''b'', 6)], is_value_node = True, node_value = Some (''int'', 100)\<rparr>,
      \<lparr>children = [], is_value_node = False, node_value = None\<rparr>,
      \<lparr>children = [], is_value_node = True, node_value = Some (''int'', 200)\<rparr>]"

definition store_a :: "(string, int) TrieStore" where
  "store_a = \<lparr>nodes = heap_a, snapshots = [Trie None, Trie (Some 0)]\<rparr>"

definition store_ab :: "(string, int) TrieStore" where
  "store_ab = \<lparr>nodes = heap_ab, snapshots = [Trie None, Trie (Some 0), Trie (Some 3)]\<rparr>"

section \<open>Heaps, walks and Put\<close>

lemma alloc_length: "alloc h n = (h', a) \<Longrightarrow> a = length h \<and> h' = h @ [n]"
  by (auto simp: alloc_def)

lemma set_update_subset: "set (AList.update k v al) \<subseteq> insert (k, v) (set al)"
  by (induction al) auto

lemma set_delete_subset: "set (AList.delete k al) \<subseteq> set al"
  by (auto simp: AList.delete_eq)

lemma kids_below_map_of: "kids_below m n \<Longrightarrow> map_of (children n) c = Some b \<Longrightarrow> b < m"
  by (auto simp: kids_below_def dest: map_of_SomeD)

lemma kids_below_mono: "kids_below m n \<Longrightarrow> m \<le> m' \<Longrightarrow> kids_below m' n"
  by (fastforce simp: kids_below_def)

lemma heap_closed_nth: "heap_closed h \<Longrightarrow> a < length h \<Longrightarrow> kids_below (length h) (h ! a)"
  by (simp add: heap_closed_def)

lemma walk_append:
  "heap_closed h \<Longrightarrow> r < length h \<Longrightarrow>
   walk (h @ zs) r key = walk h r key \<and> (\<forall>a. walk h r key = Some a \<longrightarrow> a < length h)"
proof (induction key arbitrary: r)
  case Nil
  then show ?case by simp
next
  case (Cons c cs)
  show ?case
  proof (cases "map_of (children (h ! r)) c")
    case None
    with Cons.prems show ?thesis by (simp add: nth_append)
  next
    case (Some b)
    have "b < length h"
      using heap_closed_nth [OF Cons.prems] Some by (rule kids_below_map_of)
    with Cons.IH [OF Cons.prems(1) this] Some Cons.prems show ?thesis
      by (simp add: nth_append)
  qed
qed

lemma Put_loop_put_path:
  "key \<noteq> [] \<Longrightarrow>
   (case Put_loop h cur copy key of
      (h2, lst, cp) \<Rightarrow>
        (\<exists>p. cp = Some p \<and>
           set_child (h2 @ [TrieNodeWithValue (children (h2 ! lst)) T v]) p
             (key ! (length key - 1)) (length h2) = put_path h cur key T v))"
proof (induction key arbitrary: h cur copy)
  case Nil
  then show ?case by simp
next
  case (Cons c cs)
  show ?case
  proof (cases "cs = []")
    case True
    then show ?thesis
      by (simp add: Let_def alloc_def split: option.splits prod.splits)
  next
    case False
    then have nth: "(c # cs) ! (length (c # cs) - 1) = cs ! (length cs - 1)"
      by (cases cs) simp_all
    obtain h1 a where al:
      "(case map_of (children (h ! cur)) c of
          None \<Rightarrow> alloc h TrieNode0
        | Some child \<Rightarrow> alloc h (Clone (h ! child))) = (h1, a)"
      by (cases "case map_of (children (h ! cur)) c of
          None \<Rightarrow> alloc h (TrieNode0 :: ('a, 'b) TrieNode)
        | Some child \<Rightarrow> alloc h (Clone (h ! child))") auto
    have loop: "Put_loop h cur copy (c # cs) = Put_loop (set_child h1 cur c a) a copy cs"
      using al False by simp
    have path: "put_path h cur (c # cs) T v = put_path (set_child h1 cur c a) a cs T v"
      using al False by simp
    show ?thesis
      unfolding loop path nth by (rule Cons.IH [OF False])
  qed
qed

lemma Put_nonempty:
  assumes "key \<noteq> []"
  shows "Put h t T key v =
           Inr (put_path (h @ [case root t of Some r \<Rightarrow> Clone (h ! r) | None \<Rightarrow> TrieNode0])
                  (length h) key T v,
                Trie (Some (length h)))"
  using Put_loop_put_path [OF assms, where h = "h @ [case root t of Some r \<Rightarrow> Clone (h ! r) | None \<Rightarrow> TrieNode0]"
      and cur = "length h" and copy = None and T = T and v = v]
  by (auto simp: Put_def alloc_def Let_def split: option.splits prod.splits)

lemma Put_empty: "Put h t T [] v = Inl NullDereference"
  by (simp add: Put_def Let_def alloc_def split: option.splits prod.splits)

lemma prefix_nthI:
  "length xs \<le> length ys \<Longrightarrow> (\<And>i. i < length xs \<Longrightarrow> ys ! i = xs ! i) \<Longrightarrow> prefix xs ys"
proof -
  assume len: "length xs \<le> length ys" and eq: "\<And>i. i < length xs \<Longrightarrow> ys ! i = xs ! i"
  have "take (length xs) ys = xs"
    using len eq by (intro nth_equalityI) simp_all
  then show ?thesis
    by (metis take_is_prefix)
qed

lemma prefix_nth: "prefix xs ys \<Longrightarrow> i < length xs \<Longrightarrow> ys ! i = xs ! i"
  by (auto simp: prefix_def nth_append)

lemma walk_prefix:
  assumes "heap_closed h0" "prefix h0 h" "r < length h0"
  shows "walk h r key = walk h0 r key"
    and "walk h0 r key = Some a \<Longrightarrow> a < length h0 \<and> h ! a = h0 ! a"
proof -
  from assms(2) obtain zs where h: "h = h0 @ zs"
    by (auto simp: prefix_def)
  show "walk h r key = walk h0 r key"
    using walk_append [OF assms(1,3), of zs key] by (simp add: h)
  show "a < length h0 \<and> h ! a = h0 ! a" if "walk h0 r key = Some a"
    using walk_append [OF assms(1,3), of zs key] that by (simp add: h nth_append)
qed

lemma children_Clone [simp]: "children (Clone n) = children n"
  by (simp add: Clone_def TrieNode1_def TrieNodeWithValue_def split: option.splits)

lemma node_value_Clone [simp]: "node_value (Clone n) = node_value n"
  by (simp add: Clone_def TrieNode1_def TrieNodeWithValue_def split: option.splits)

lemma is_value_node_Clone [simp]: "is_value_node (Clone n) = (node_value n \<noteq> None)"
  by (simp add: Clone_def TrieNode1_def TrieNodeWithValue_def split: option.splits)

lemma kids_below_Clone [simp]: "kids_below m (Clone n) = kids_below m n"
  by (simp add: kids_below_def)

lemma TrieNode0_simps [simp]:
  "children TrieNode0 = []" "node_value TrieNode0 = None" "is_value_node TrieNode0 = False"
  by (simp_all add: TrieNode0_def)

lemma TrieNode1_simps [simp]:
  "children (TrieNode1 cs) = cs" "node_value (TrieNode1 cs) = None"
  "is_value_node (TrieNode1 cs) = False"
  by (simp_all add: TrieNode1_def)

lemma TrieNodeWithValue_simps [simp]:
  "children (TrieNodeWithValue cs T v) = cs" "node_value (TrieNodeWithValue cs T v) = Some (T, v)"
  "is_value_node (TrieNodeWithValue cs T v) = True"
  by (simp_all add: TrieNodeWithValue_def)

lemma length_set_child [simp]: "length (set_child h p c a) = length h"
  by (simp add: set_child_def)

lemma length_erase_child [simp]: "length (erase_child h p c) = length h"
  by (simp add: erase_child_def)

lemma nth_set_child:
  "p < length h \<Longrightarrow>
   set_child h p c a ! q =
     (if q = p then (h ! p)\<lparr>children := AList.update c a (children (h ! p))\<rparr> else h ! q)"
  by (simp add: set_child_def nth_list_update)

lemma nth_erase_child:
  "p < length h \<Longrightarrow>
   erase_child h p c ! q =
     (if q = p then (h ! p)\<lparr>children := AList.delete c (children (h ! p))\<rparr> else h ! q)"
  by (simp add: erase_child_def nth_list_update)

lemma kids_below_update:
  "kids_below m n \<Longrightarrow> a < m \<Longrightarrow> kids_below m (n\<lparr>children := AList.update c a (children n)\<rparr>)"
  using set_update_subset [of c a "children n"] by (fastforce simp: kids_below_def)

lemma kids_below_delete:
  "kids_below m n \<Longrightarrow> kids_below m (n\<lparr>children := AList.delete c (children n)\<rparr>)"
  using set_delete_subset [of c "children n"] by (fastforce simp: kids_below_def)

lemma kids_below_child_copy:
  assumes "path_state h0 h cur"
  shows "kids_below (length h0) (child_copy h cur c)"
proof (cases "map_of (children (h ! cur)) c")
  case None
  then show ?thesis by (simp add: child_copy_def kids_below_def)
next
  case (Some b)
  from assms have closed: "heap_closed h0" and pre: "prefix h0 h"
    and kb: "kids_below (length h0) (h ! cur)"
    by (simp_all add: path_state_def)
  have b: "b < length h0"
    using kb Some by (rule kids_below_map_of)
  have "h ! b = h0 ! b"
    using pre b by (rule prefix_nth)
  moreover have "kids_below (length h0) (h0 ! b)"
    using closed b by (rule heap_closed_nth)
  ultimately show ?thesis
    using Some by (simp add: child_copy_def)
qed

text \<open>One iteration of the path-copying loop, from a state where \<open>cur\<close> is the node
  allocated last.\<close>

lemma path_state_step:
  fixes c :: char
  assumes "path_state h0 h cur"
  defines "h2 \<equiv> set_child (h @ [child_copy h cur c]) cur c (length h)"
  shows "path_state h0 h2 (length h)"
    and "h2 ! length h = child_copy h cur c"
    and "h2 ! cur = (h ! cur)\<lparr>children := AList.update c (length h) (children (h ! cur))\<rparr>"
    and "\<And>b. b < cur \<Longrightarrow> h2 ! b = h ! b"
    and "length h2 = Suc (length h)"
proof -
  from assms(1) have closed: "heap_closed h0" and pre: "prefix h0 h"
    and le: "length h0 \<le> cur" and len: "length h = Suc cur"
    by (simp_all add: path_state_def)
  show nth_new: "h2 ! length h = child_copy h cur c"
    using len by (simp add: h2_def nth_set_child nth_append)
  show "h2 ! cur = (h ! cur)\<lparr>children := AList.update c (length h) (children (h ! cur))\<rparr>"
    using len by (simp add: h2_def nth_set_child nth_append)
  show old: "\<And>b. b < cur \<Longrightarrow> h2 ! b = h ! b"
    using len by (simp add: h2_def nth_set_child nth_append)
  show "length h2 = Suc (length h)"
    by (simp add: h2_def)
  have "prefix h0 h2"
  proof (rule prefix_nthI)
    show "length h0 \<le> length h2"
      using le len by (simp add: h2_def)
    show "h2 ! i = h0 ! i" if "i < length h0" for i
      using that le old [of i] prefix_nth [OF pre that] by simp
  qed
  then show "path_state h0 h2 (length h)"
    using closed le len nth_new kids_below_child_copy [OF assms(1), of c]
    by (simp add: path_state_def h2_def)
qed

lemma put_path_Cons:
  assumes "cur < length h"
  shows "put_path h cur (c # cs) T v =
           (let h2 = set_child (h @ [child_copy h cur c]) cur c (length h) in
            if cs = [] then
              set_child (h2 @ [TrieNodeWithValue (children (child_copy h cur c)) T v])
                cur c (Suc (length h))
            else put_path h2 (length h) cs T v)"
  using assms
  by (auto simp: Let_def alloc_def child_copy_def nth_set_child nth_append
      split: option.splits)

lemma path_stateD:
  assumes "path_state h0 h cur"
  shows "heap_closed h0" "prefix h0 h" "length h0 \<le> cur" "length h = Suc cur"
    "kids_below (length h0) (h ! cur)"
  using assms by (simp_all add: path_state_def)

lemma put_path_shape:
  assumes "path_state h0 h cur" "key \<noteq> []"
  shows "let hf = put_path h cur key T v in
         length h < length hf
       \<and> (\<forall>b<cur. hf ! b = h ! b)
       \<and> node_value (hf ! cur) = node_value (h ! cur)
       \<and> is_value_node (hf ! cur) = is_value_node (h ! cur)
       \<and> children (hf ! cur) \<noteq> []
       \<and> (\<forall>b. cur \<le> b \<and> b < length hf \<longrightarrow> kids_below (length hf) (hf ! b))
       \<and> (\<exists>a. walk hf cur key = Some a \<and> node_value (hf ! a) = Some (T, v))"
  using assms unfolding Let_def
proof (induction key arbitrary: h cur)
  case Nil
  then show ?case by simp
next
  case (Cons c cs)
  note ps = Cons.prems(1)
  note d = path_stateD [OF ps]
  let ?m = "child_copy h cur c"
  let ?h2 = "set_child (h @ [?m]) cur c (length h)"
  note st = path_state_step [OF ps, where c = c]
  have km: "kids_below (length h0) ?m"
    using ps by (rule kids_below_child_copy)
  have cur: "cur < length h"
    using d(4) by simp
  show ?case
  proof (cases "cs = []")
    case True
    let ?vn = "TrieNodeWithValue (children ?m) T v"
    let ?hf = "set_child (?h2 @ [?vn]) cur c (Suc (length h))"
    have hf: "put_path h cur (c # cs) T v = ?hf"
      by (subst put_path_Cons [OF cur]) (simp add: True Let_def)
    have len: "length ?hf = Suc (Suc (length h))"
      by simp
    have n_cur: "?hf ! cur =
        (h ! cur)\<lparr>children := AList.update c (Suc (length h)) (children (h ! cur))\<rparr>"
      using cur st(3) by (simp add: nth_set_child nth_append)
    have n_old: "?hf ! b = h ! b" if "b < cur" for b
      using that cur st(4) [OF that] by (simp add: nth_set_child nth_append)
    have n_m: "?hf ! length h = ?m"
      using cur st(2) by (simp add: nth_set_child nth_append)
    have n_vn: "?hf ! Suc (length h) = ?vn"
      using cur by (simp add: nth_set_child nth_append)
    have kids: "kids_below (length ?hf) (?hf ! b)" if "cur \<le> b" "b < length ?hf" for b
    proof -
      from that d(4) consider "b = cur" | "b = length h" | "b = Suc (length h)"
        by (auto simp: less_Suc_eq)
      then show ?thesis
      proof cases
        case 1
        have "kids_below (length ?hf) (h ! cur)"
          using d(5) by (rule kids_below_mono) (use d in simp)
        then show ?thesis
          unfolding 1 n_cur by (rule kids_below_update) simp
      next
        case 2
        show ?thesis
          unfolding 2 n_m using km by (rule kids_below_mono) (use d in simp)
      next
        case 3
        have "kids_below (length ?hf) ?m"
          using km by (rule kids_below_mono) (use d in simp)
        then show ?thesis
          unfolding 3 n_vn by (simp add: kids_below_def)
      qed
    qed
    have "walk ?hf cur (c # cs) = Some (Suc (length h))"
      using True by (simp add: n_cur AList.update_conv')
    moreover have "node_value (?hf ! Suc (length h)) = Some (T, v)"
      unfolding n_vn by simp
    ultimately show ?thesis
      unfolding hf using n_old kids by (simp add: n_cur)
  next
    case False
    let ?hf = "put_path ?h2 (length h) cs T v"
    have hf: "put_path h cur (c # cs) T v = ?hf"
      by (subst put_path_Cons [OF cur]) (simp add: False Let_def)
    from Cons.IH [OF st(1) False, unfolded Let_def]
    have IH: "length ?h2 < length ?hf" "\<forall>b<length h. ?hf ! b = ?h2 ! b"
      "\<forall>b. length h \<le> b \<and> b < length ?hf \<longrightarrow> kids_below (length ?hf) (?hf ! b)"
      "\<exists>a. walk ?hf (length h) cs = Some a \<and> node_value (?hf ! a) = Some (T, v)"
      by simp_all
    have n_cur: "?hf ! cur =
        (h ! cur)\<lparr>children := AList.update c (length h) (children (h ! cur))\<rparr>"
      using IH(2) cur st(3) by simp
    have n_old: "?hf ! b = h ! b" if "b < cur" for b
      using that cur st(4) [OF that] IH(2) by simp
    have kids: "kids_below (length ?hf) (?hf ! b)" if "cur \<le> b" "b < length ?hf" for b
    proof (cases "b = cur")
      case True
      have "kids_below (length ?hf) (h ! cur)"
        using d(5) by (rule kids_below_mono) (use d IH(1) in simp)
      then show ?thesis
        unfolding True n_cur by (rule kids_below_update) (use IH(1) in simp)
    next
      case False
      with that d(4) have "length h \<le> b" by simp
      with that IH(3) show ?thesis by simp
    qed
    have "walk ?hf cur (c # cs) = walk ?hf (length h) cs"
      by (simp add: n_cur AList.update_conv')
    with IH(4) show ?thesis
      unfolding hf using n_old kids IH(1) by (simp add: n_cur)
  qed
qed

lemma path_state_root:
  assumes "trie_ok h t"
  shows "path_state h (h @ [root_copy h t]) (length h)"
proof -
  have "kids_below (length h) (root_copy h t)"
    using assms heap_closed_nth [of h]
    by (auto simp: trie_ok_def root_copy_def kids_below_def split: option.splits)
  then show ?thesis
    using assms by (simp add: path_state_def trie_ok_def)
qed

lemma node_value_root_copy: "trie_ok h t \<Longrightarrow> node_value (root_copy h t) = None"
  by (auto simp: trie_ok_def root_copy_def split: option.splits)

lemma heap_closedI:
  assumes "heap_closed h0" "prefix h0 hf"
    and "\<And>b. length h0 \<le> b \<Longrightarrow> b < length hf \<Longrightarrow> kids_below (length hf) (hf ! b)"
  shows "heap_closed hf"
  unfolding heap_closed_def
proof
  fix n assume "n \<in> set hf"
  then obtain b where b: "b < length hf" "n = hf ! b"
    by (auto simp: in_set_conv_nth)
  show "kids_below (length hf) n"
  proof (cases "b < length h0")
    case True
    with assms(2) have "hf ! b = h0 ! b"
      by (rule prefix_nth)
    moreover have "kids_below (length h0) (h0 ! b)"
      using assms(1) True by (rule heap_closed_nth)
    moreover have "length h0 \<le> length hf"
      using assms(2) by (rule prefix_length_le)
    ultimately show ?thesis
      using b by (auto intro: kids_below_mono)
  next
    case False
    with assms(3) b show ?thesis by simp
  qed
qed

lemma trie_ok_prefix:
  assumes "trie_ok h t" "prefix h hf" "heap_closed hf"
  shows "trie_ok hf t"
proof (cases "root t")
  case None
  with assms(3) show ?thesis by (simp add: trie_ok_def)
next
  case (Some r)
  with assms(1) have r: "r < length h" "node_value (h ! r) = None"
    by (simp_all add: trie_ok_def)
  have "hf ! r = h ! r"
    using assms(2) r(1) by (rule prefix_nth)
  with r Some assms(3) prefix_length_le [OF assms(2)] show ?thesis
    by (simp add: trie_ok_def)
qed

lemma Get_prefix:
  assumes "trie_ok h t" "prefix h hf"
  shows "Get hf t T key = Get h t T key"
proof (cases "root t")
  case None
  then show ?thesis by (simp add: Get_def)
next
  case (Some r)
  with assms have closed: "heap_closed h" and r: "r < length h"
    by (simp_all add: trie_ok_def)
  note w = walk_prefix [OF closed assms(2) r]
  show ?thesis
  proof (cases "walk h r key")
    case None
    then show ?thesis using Some w(1) [of key] by (simp add: Get_def)
  next
    case (Some a)
    with w(2) [OF Some] w(1) [of key] \<open>root t = Some r\<close> show ?thesis
      by (simp add: Get_def)
  qed
qed

text \<open>What a successful \<open>Put\<close> gives.\<close>

lemma Put_ok:
  assumes ok: "trie_ok h t" and key: "key \<noteq> []"
  shows "\<exists>hf. Put h t T key v = Inr (hf, Trie (Some (length h)))
           \<and> prefix h hf \<and> trie_ok hf (Trie (Some (length h)))
           \<and> Get hf (Trie (Some (length h))) T key = Some v"
proof -
  let ?h1 = "h @ [root_copy h t]"
  let ?hf = "put_path ?h1 (length h) key T v"
  note ps = path_state_root [OF ok]
  from put_path_shape [OF ps key, of T v]
  have len: "length ?h1 < length ?hf"
    and old: "\<forall>b<length h. ?hf ! b = ?h1 ! b"
    and nv: "node_value (?hf ! length h) = node_value (?h1 ! length h)"
    and kids: "\<forall>b. length h \<le> b \<and> b < length ?hf \<longrightarrow> kids_below (length ?hf) (?hf ! b)"
    and walk: "\<exists>a. walk ?hf (length h) key = Some a \<and> node_value (?hf ! a) = Some (T, v)"
    by (simp_all add: Let_def)
  have put: "Put h t T key v = Inr (?hf, Trie (Some (length h)))"
    using Put_nonempty [OF key, of h t T v] by (simp add: root_copy_def)
  have pre: "prefix h ?hf"
    using len old by (intro prefix_nthI) (simp_all add: nth_append)
  have closed: "heap_closed ?hf"
  proof (rule heap_closedI [OF _ pre])
    show "heap_closed h"
      using ok by (simp add: trie_ok_def)
  qed (use kids in simp)
  have "trie_ok ?hf (Trie (Some (length h)))"
    using closed len nv node_value_root_copy [OF ok] by (simp add: trie_ok_def)
  moreover have "Get ?hf (Trie (Some (length h))) T key = Some v"
    using walk by (auto simp: Get_def value_as_def)
  ultimately show ?thesis
    using put pre by blast
qed

section \<open>Remove: the loops and the recursive formulation\<close>

lemma cleanup_start_eq:
  assumes "path \<noteq> []" "length path \<le> 2 ^ 31"
  shows "cleanup_start path = int (length path) - 1"
proof -
  obtain m where m: "length path = Suc m"
    using assms(1) by (cases path) auto
  with assms(2) have lt: "m < 2 ^ 31" by simp
  then have lt64: "m < 2 ^ 64"
    by (rule less_trans) simp
  have "(word_of_nat (length path) :: 64 word) - 1 = word_of_nat m"
    by (simp add: m)
  moreover have "(ucast (word_of_nat m :: 64 word) :: 32 word) = word_of_nat m"
    using lt64 by (simp add: unsigned_of_nat take_bit_nat_eq_self)
  moreover have "sint (word_of_nat m :: 32 word) = int m"
    using lt by (simp add: signed_of_nat signed_take_bit_int_eq_self)
  ultimately show ?thesis
    by (simp add: cleanup_start_def m)
qed

lemma Remove_loop_remove_path:
  assumes "key \<noteq> []" "length kpre = length pre"
  shows "case Remove_loop h cur pre key of
           (h2, None) \<Rightarrow> remove_path True h cur key = (h2, Abort)
         | (h2, Some (lst, path)) \<Rightarrow>
             length path = length pre + length key \<and>
             take (Suc (length pre)) path = pre @ [cur] \<and>
             (cleanup_start path = int (length path) - 1 \<longrightarrow>
              Remove_tail h2 t nr lst path (kpre @ key) =
                after_path (remove_path True h cur key) t nr path (kpre @ key) (length pre))"
  using assms
proof (induction key arbitrary: h cur pre kpre)
  case Nil
  then show ?case by simp
next
  case (Cons c cs)
  show ?case
  proof (cases "map_of (children (h ! cur)) c")
    case None
    then show ?thesis by simp
  next
    case (Some child)
    let ?a = "length h"
    let ?h2 = "set_child (h @ [Clone (h ! child)]) cur c ?a"
    have loop: "Remove_loop h cur pre (c # cs) = Remove_loop ?h2 ?a (pre @ [cur]) cs"
      using Some by (simp add: alloc_def)
    show ?thesis
    proof (cases "cs = []")
      case True
      show ?thesis
        unfolding loop using True Some Cons.prems(2)
        by (simp add: Remove_tail_def after_path_def alloc_def Let_def nth_append)
    next
      case False
      have IH: "case Remove_loop ?h2 ?a (pre @ [cur]) cs of
           (h2, None) \<Rightarrow> remove_path True ?h2 ?a cs = (h2, Abort)
         | (h2, Some (lst, path)) \<Rightarrow>
             length path = length (pre @ [cur]) + length cs \<and>
             take (Suc (length (pre @ [cur]))) path = (pre @ [cur]) @ [?a] \<and>
             (cleanup_start path = int (length path) - 1 \<longrightarrow>
              Remove_tail h2 t nr lst path ((kpre @ [c]) @ cs) =
                after_path (remove_path True ?h2 ?a cs) t nr path ((kpre @ [c]) @ cs)
                  (length (pre @ [cur])))"
        using Cons.prems by (intro Cons.IH [OF False]) simp_all
      have path: "remove_path True h cur (c # cs) =
          (case remove_path True ?h2 ?a cs of
             (h', Prune) \<Rightarrow>
               if children (h' ! ?a) = [] \<and> \<not> is_value_node (h' ! ?a)
               then (erase_child h' cur c, Prune)
               else (h', Done)
           | (h', st) \<Rightarrow> (h', st))"
        using Some False by (simp add: alloc_def)
      obtain h3 res where rl: "Remove_loop ?h2 ?a (pre @ [cur]) cs = (h3, res)"
        by (cases "Remove_loop ?h2 ?a (pre @ [cur]) cs")
      show ?thesis
      proof (cases res)
        case None
        with IH rl show ?thesis
          unfolding loop path by simp
      next
        case (Some lp)
        obtain lst path where lp: "lp = (lst, path)" by (cases lp)
        from IH rl Some lp
        have len: "length path = Suc (length pre) + length cs"
          and tk: "take (Suc (Suc (length pre))) path = pre @ [cur, ?a]"
          and tail: "cleanup_start path = int (length path) - 1 \<Longrightarrow>
             Remove_tail h3 t nr lst path (kpre @ c # cs) =
               after_path (remove_path True ?h2 ?a cs) t nr path (kpre @ c # cs) (Suc (length pre))"
          by simp_all
        have tk1: "take (Suc (length pre)) path = pre @ [cur]"
          using arg_cong [OF tk, of "take (Suc (length pre))"] by simp
        have p1: "path ! Suc (length pre) = ?a"
          using arg_cong [OF tk, of "\<lambda>xs. xs ! Suc (length pre)"] by (simp add: nth_append)
        have p0: "path ! length pre = cur"
          using arg_cong [OF tk, of "\<lambda>xs. xs ! length pre"] by (simp add: nth_append)
        have k0: "(kpre @ c # cs) ! length pre = c"
          using Cons.prems(2) by (simp add: nth_append)
        obtain hf st where rp: "remove_path True ?h2 ?a cs = (hf, st)"
          by (cases "remove_path True ?h2 ?a cs")
        have cl: "cleanup hf path (kpre @ c # cs) (int (Suc (length pre))) =
            (if children (hf ! ?a) = [] \<and> \<not> is_value_node (hf ! ?a)
             then cleanup (erase_child hf cur c) path (kpre @ c # cs) (int (length pre))
             else hf)"
          by (subst cleanup.simps) (simp add: p0 p1 k0 nat_add_distrib)
        have ap: "after_path (remove_path True ?h2 ?a cs) t nr path (kpre @ c # cs) (Suc (length pre)) =
            after_path (remove_path True h cur (c # cs)) t nr path (kpre @ c # cs) (length pre)"
          unfolding path rp by (cases st) (simp_all add: after_path_def cl del: of_nat_Suc)
        have "Remove_tail h3 t nr lst path (kpre @ c # cs) =
            after_path (remove_path True h cur (c # cs)) t nr path (kpre @ c # cs) (length pre)"
          if "cleanup_start path = int (length path) - 1"
          using tail [OF that] ap by simp
        with len tk1 show ?thesis
          unfolding loop rl Some lp by simp
      qed
    qed
  qed
qed

lemma cleanup_negative: "i < 0 \<Longrightarrow> cleanup h path key i = h"
  by (subst cleanup.simps) simp

lemma cleanup_zero: "cleanup h path key 0 = h"
  by (subst cleanup.simps) (simp add: cleanup_negative)

lemma Remove_nonempty:
  assumes "key \<noteq> []" "length key \<le> 2 ^ 31" "root t = Some r"
  shows "Remove h t key =
           (case remove_path True (h @ [Clone (h ! r)]) (length h) key of
              (hf, Abort) \<Rightarrow> Inr (hf, t)
            | (hf, st) \<Rightarrow> Inr (hf, Trie (Some (length h))))"
proof -
  let ?h1 = "h @ [Clone (h ! r)]"
  obtain hf st where rp: "remove_path True ?h1 (length h) key = (hf, st)"
    by (cases "remove_path True ?h1 (length h) key")
  obtain h2 res where rl: "Remove_loop ?h1 (length h) [] key = (h2, res)"
    by (cases "Remove_loop ?h1 (length h) [] key")
  have *: "case res of
             None \<Rightarrow> (hf, st) = (h2, Abort)
           | Some (lst, path) \<Rightarrow>
               Remove_tail h2 t (length h) lst path key =
                 after_path (hf, st) t (length h) path key 0"
  proof (cases res)
    case None
    with Remove_loop_remove_path [OF assms(1), where kpre = "[]" and pre = "[]" and h = ?h1
      and cur = "length h" and t = t and nr = "length h"]
    show ?thesis
      unfolding rl rp by simp
  next
    case (Some lp)
    obtain lst path where lp: "lp = (lst, path)" by (cases lp)
    from Remove_loop_remove_path [OF assms(1), where kpre = "[]" and pre = "[]" and h = ?h1
      and cur = "length h" and t = t and nr = "length h"]
    have len: "length path = length key"
      and tail: "cleanup_start path = int (length path) - 1 \<Longrightarrow>
        Remove_tail h2 t (length h) lst path key = after_path (hf, st) t (length h) path key 0"
      unfolding rl rp Some lp by simp_all
    have "cleanup_start path = int (length path) - 1"
      using assms(1,2) len by (intro cleanup_start_eq) auto
    from tail [OF this] show ?thesis
      unfolding Some lp by simp
  qed
  show ?thesis
    using * assms(3) unfolding rp
    by (cases st) (auto simp: Remove_def alloc_def rl after_path_def cleanup_zero
        split: option.splits)
qed

lemma Remove_empty_key:
  assumes "root t = Some r"
  shows "Remove h t [] =
           (if node_value (h ! r) = None then Inr (h @ [Clone (h ! r)], t)
            else Inl BackOfEmptyVector)"
  using assms by (simp add: Remove_def alloc_def Remove_tail_def Let_def)

lemma Remove_null: "root t = None \<Longrightarrow> Remove h t key = Inr (h, t)"
  by (simp add: Remove_def)

lemma kids_from_erase:
  assumes "kids_from k h"
  shows "kids_from k (erase_child h p c)"
  unfolding kids_from_def
proof (intro allI impI)
  fix b assume b: "k \<le> b \<and> b < length (erase_child h p c)"
  then have kb: "kids_below (length h) (h ! b)"
    using assms by (simp add: kids_from_def)
  show "kids_below (length (erase_child h p c)) (erase_child h p c ! b)"
  proof (cases "b = p")
    case True
    with b kb show ?thesis by (simp add: nth_erase_child kids_below_delete)
  next
    case False
    with b kb show ?thesis by (simp add: erase_child_def)
  qed
qed

lemma kids_from_set:
  assumes "kids_from k h" "a < length h"
  shows "kids_from k (set_child h p c a)"
  unfolding kids_from_def
proof (intro allI impI)
  fix b assume b: "k \<le> b \<and> b < length (set_child h p c a)"
  then have kb: "kids_below (length h) (h ! b)"
    using assms by (simp add: kids_from_def)
  show "kids_below (length (set_child h p c a)) (set_child h p c a ! b)"
  proof (cases "b = p")
    case True
    with b kb assms(2) show ?thesis by (simp add: nth_set_child kids_below_update)
  next
    case False
    with b kb show ?thesis by (simp add: set_child_def)
  qed
qed

lemma kids_from_append:
  assumes "kids_from k h" "kids_below (Suc (length h)) n"
  shows "kids_from k (h @ [n])"
  unfolding kids_from_def
proof (intro allI impI)
  fix b assume b: "k \<le> b \<and> b < length (h @ [n])"
  show "kids_below (length (h @ [n])) ((h @ [n]) ! b)"
  proof (cases "b < length h")
    case True
    with b assms(1) have "kids_below (length h) (h ! b)"
      by (simp add: kids_from_def)
    then have "kids_below (Suc (length h)) (h ! b)"
      by (rule kids_below_mono) simp
    with True show ?thesis by (simp add: nth_append)
  next
    case False
    with b have "b = length h" by simp
    with assms(2) show ?thesis by simp
  qed
qed

lemma kids_from_flag:
  assumes "kids_from k h"
  shows "kids_from k (h[a := (h ! a)\<lparr>is_value_node := f\<rparr>])"
  unfolding kids_from_def
proof (intro allI impI)
  fix b assume b: "k \<le> b \<and> b < length (h[a := (h ! a)\<lparr>is_value_node := f\<rparr>])"
  then have kb: "kids_below (length h) (h ! b)"
    using assms by (simp add: kids_from_def)
  show "kids_below (length (h[a := (h ! a)\<lparr>is_value_node := f\<rparr>]))
          (h[a := (h ! a)\<lparr>is_value_node := f\<rparr>] ! b)"
  proof (cases "b = a")
    case True
    with b kb show ?thesis by (simp add: kids_below_def)
  next
    case False
    with b kb show ?thesis by simp
  qed
qed

lemma kids_from_Suc:
  assumes "kids_from (Suc k) h" "kids_below (length h) (h ! k)"
  shows "kids_from k h"
  unfolding kids_from_def
proof (intro allI impI)
  fix b assume b: "k \<le> b \<and> b < length h"
  show "kids_below (length h) (h ! b)"
  proof (cases "b = k")
    case True
    with assms(2) show ?thesis by simp
  next
    case False
    with b have "Suc k \<le> b" by simp
    with b assms(1) show ?thesis by (simp add: kids_from_def)
  qed
qed

lemma kids_from_path_state: "path_state h0 h cur \<Longrightarrow> kids_from cur h"
  by (auto simp: kids_from_def path_state_def less_Suc_eq intro: kids_below_mono)

lemma remove_path_Cons_Some:
  assumes "cur < length h" "map_of (children (h ! cur)) c = Some child"
  shows "remove_path pr h cur (c # cs) =
     (let m = Clone (h ! child); h2 = set_child (h @ [m]) cur c (length h) in
      if cs = [] then
        (if node_value (h ! child) = None then (h2, Abort)
         else if children (h ! child) \<noteq> [] then
           (set_child (h2 @ [TrieNode1 (children (h ! child))]) cur c (Suc (length h)), Done)
         else (erase_child (h2[length h := m\<lparr>is_value_node := False\<rparr>]) cur c, Prune))
      else
        (case remove_path pr h2 (length h) cs of
           (h', Prune) \<Rightarrow>
             if pr \<and> children (h' ! length h) = [] \<and> \<not> is_value_node (h' ! length h)
             then (erase_child h' cur c, Prune)
             else (h', Done)
         | (h', st) \<Rightarrow> (h', st)))"
  using assms
  by (simp add: Let_def alloc_def nth_set_child nth_append)

lemma child_copy_Some:
  "map_of (children (h ! cur)) c = Some child \<Longrightarrow> child_copy h cur c = Clone (h ! child)"
  by (simp add: child_copy_def)

lemma remove_path_shape:
  assumes "path_state h0 h cur" "remove_path pr h cur key = (hf, st)"
  shows "length h \<le> length hf
       \<and> (\<forall>b<cur. hf ! b = h ! b)
       \<and> node_value (hf ! cur) = node_value (h ! cur)
       \<and> is_value_node (hf ! cur) = is_value_node (h ! cur)
       \<and> kids_from cur hf
       \<and> (st = Done \<longrightarrow> children (hf ! cur) \<noteq> [])
       \<and> (\<forall>d. d \<noteq> hd key \<longrightarrow>
              map_of (children (hf ! cur)) d = map_of (children (h ! cur)) d)"
  using assms
proof (induction key arbitrary: h cur hf st)
  case Nil
  then show ?case by (simp add: kids_from_path_state)
next
  case (Cons c cs)
  note ps = Cons.prems(1)
  note d = path_stateD [OF ps]
  have cur: "cur < length h"
    using d(4) by simp
  show ?case
  proof (cases "map_of (children (h ! cur)) c")
    case None
    with Cons.prems(2) have "hf = h" "st = Abort"
      by simp_all
    then show ?thesis
      using kids_from_path_state [OF ps] by simp
  next
    case (Some child)
    let ?m = "Clone (h ! child)"
    let ?h2 = "set_child (h @ [?m]) cur c (length h)"
    note cc = child_copy_Some [OF Some]
    note st = path_state_step [OF ps, where c = c, unfolded cc]
    have km: "kids_below (length h0) ?m"
      using kids_below_child_copy [OF ps, of c] by (simp only: cc)
    have km': "kids_below (Suc (length h)) ?m"
      using km by (rule kids_below_mono) (use d in simp)
    have kf2: "kids_from cur ?h2"
      by (intro kids_from_set kids_from_append kids_from_path_state [OF ps] km') simp
    note rp = remove_path_Cons_Some [OF cur Some, where cs = cs and pr = pr, unfolded Let_def]
    note res = Cons.prems(2) [unfolded rp]
    show ?thesis
    proof (cases "cs = []")
      case True
      consider (abort) "node_value (h ! child) = None"
        | (strip) "node_value (h ! child) \<noteq> None" "children (h ! child) \<noteq> []"
        | (leaf) "node_value (h ! child) \<noteq> None" "children (h ! child) = []"
        by blast
      then show ?thesis
      proof cases
        case abort
        with res True have "hf = ?h2" "st = Abort"
          by simp_all
        then show ?thesis
          using kf2 cur st(3,4) by (simp add: update_conv')
      next
        case strip
        let ?nn = "TrieNode1 (children (h ! child)) :: ('a, 'b) TrieNode"
        from strip res True
        have hf: "hf = set_child (?h2 @ [?nn]) cur c (Suc (length h))" and "st = Done"
          by auto
        have "kids_below (Suc (length ?h2)) ?m"
          using km by (rule kids_below_mono) (use d in simp)
        then have "kids_below (Suc (length ?h2)) ?nn"
          by (simp add: kids_below_def)
        then have "kids_from cur hf"
          unfolding hf by (intro kids_from_set kids_from_append kf2) simp_all
        then show ?thesis
          using cur st(3,4) by (simp add: hf nth_set_child nth_append update_conv')
      next
        case leaf
        from leaf res True
        have hf: "hf = erase_child (?h2[length h := ?m\<lparr>is_value_node := False\<rparr>]) cur c"
          and "st = Prune"
          by auto
        have "?h2[length h := ?m\<lparr>is_value_node := False\<rparr>] =
              ?h2[length h := (?h2 ! length h)\<lparr>is_value_node := False\<rparr>]"
          using st(2) by simp
        then have "kids_from cur hf"
          unfolding hf using kids_from_erase [OF kids_from_flag [OF kf2]] by simp
        then show ?thesis
          using cur st(3,4) \<open>st = Prune\<close> by (simp add: hf nth_erase_child update_conv')
      qed
    next
      case False
      obtain h' st' where inner: "remove_path pr ?h2 (length h) cs = (h', st')"
        by (cases "remove_path pr ?h2 (length h) cs")
      from Cons.IH [OF st(1) inner]
      have IH: "length ?h2 \<le> length h'" "\<forall>b<length h. h' ! b = ?h2 ! b"
        "kids_from (length h) h'"
        by simp_all
      have len': "length h < length h'"
        using IH(1) by simp
      have n_cur: "h' ! cur = (h ! cur)\<lparr>children := AList.update c (length h) (children (h ! cur))\<rparr>"
        using IH(2) cur st(3) by simp
      have "kids_below (length h') (h ! cur)"
        using d(5) by (rule kids_below_mono) (use d len' in simp)
      then have kb_cur: "kids_below (length h') (h' ! cur)"
        unfolding n_cur by (rule kids_below_update) (rule len')
      have "kids_from (Suc cur) h'"
        using IH(3) d(4) by simp
      then have kf': "kids_from cur h'"
        using kb_cur by (rule kids_from_Suc)
      have old: "h' ! b = h ! b" if "b < cur" for b
        using that IH(2) cur st(4) [OF that] by simp
      have hf_cases: "(hf = h' \<and> st = st' \<and> st' \<noteq> Prune) \<or> (hf = h' \<and> st = Done)
            \<or> (hf = erase_child h' cur c \<and> st = Prune)"
        using res False inner by (cases st') (auto split: if_splits)
      then show ?thesis
      proof (elim disjE conjE)
        assume "hf = h'" "st = st'" "st' \<noteq> Prune"
        then show ?thesis
          using kf' old len' by (simp add: n_cur update_conv')
      next
        assume "hf = h'" "st = Done"
        then show ?thesis
          using kf' old len' by (simp add: n_cur update_conv')
      next
        assume hf: "hf = erase_child h' cur c" and "st = Prune"
        have "kids_from cur hf"
          unfolding hf using kf' by (rule kids_from_erase)
        then show ?thesis
          using old len' cur \<open>st = Prune\<close>
          by (simp add: hf nth_erase_child n_cur update_conv')
      qed
    qed
  qed
qed

section \<open>What Remove does to the keys\<close>

lemma lookup_Nil [simp]: "lookup h a [] = node_value (h ! a)"
  by (simp add: lookup_def)

lemma lookup_Cons [simp]:
  "lookup h a (c # cs) =
     (case map_of (children (h ! a)) c of None \<Rightarrow> None | Some b \<Rightarrow> lookup h b cs)"
  by (simp add: lookup_def split: option.splits)

lemma lookup_prefix:
  assumes "heap_closed h0" "prefix h0 h" "r < length h0"
  shows "lookup h r key = lookup h0 r key"
proof (cases "walk h0 r key")
  case None
  then show ?thesis
    using walk_prefix(1) [OF assms, of key] by (simp add: lookup_def)
next
  case (Some a)
  then show ?thesis
    using walk_prefix(1) [OF assms, of key] walk_prefix(2) [OF assms Some]
    by (simp add: lookup_def)
qed

lemma lookup_agree:
  assumes "heap_closed h0" "prefix h0 hx" "prefix h0 hy"
    and "map_of (children (hx ! a)) d = map_of (children (hy ! b)) d"
    and "kids_below (length h0) (hy ! b)"
  shows "lookup hx a (d # ks) = lookup hy b (d # ks)"
proof (cases "map_of (children (hy ! b)) d")
  case None
  with assms(4) show ?thesis by simp
next
  case (Some x)
  have "x < length h0"
    using assms(5) Some by (rule kids_below_map_of)
  then have "lookup hx x ks = lookup hy x ks"
    using lookup_prefix [OF assms(1,2), of x ks] lookup_prefix [OF assms(1,3), of x ks]
    by simp
  with assms(4) Some show ?thesis by simp
qed

lemma shape_prefix:
  assumes "path_state h0 h cur" "length h \<le> length hf" "\<forall>b<cur. hf ! b = h ! b"
  shows "prefix h0 hf"
proof (rule prefix_nthI)
  note d = path_stateD [OF assms(1)]
  show "length h0 \<le> length hf"
    using d assms(2) by simp
  show "hf ! i = h0 ! i" if "i < length h0" for i
    using that d(3) assms(3) prefix_nth [OF d(2) that] by simp
qed

lemma path_state_old_node:
  assumes "path_state h0 h cur" "map_of (children (h ! cur)) c = Some child"
  shows "child < length h0" "kids_below (length h0) (h ! child)"
proof -
  note d = path_stateD [OF assms(1)]
  show c: "child < length h0"
    using d(5) assms(2) by (rule kids_below_map_of)
  show "kids_below (length h0) (h ! child)"
    using heap_closed_nth [OF d(1) c] prefix_nth [OF d(2) c] by simp
qed

lemma remove_path_lookup:
  assumes "path_state h0 h cur" "key \<noteq> []" "remove_path pr h cur key = (hf, st)"
  shows "(st = Abort \<longleftrightarrow> lookup h cur key = None)
       \<and> (st \<noteq> Abort \<longrightarrow>
            (\<forall>key'. lookup hf cur key' = (if key' = key then None else lookup h cur key')))"
  using assms
proof (induction key arbitrary: h cur hf st)
  case Nil
  then show ?case by simp
next
  case (Cons c cs)
  note ps = Cons.prems(1)
  note d = path_stateD [OF ps]
  have cur: "cur < length h"
    using d(4) by simp
  note sh = remove_path_shape [OF ps Cons.prems(3)]
  have pre_f: "prefix h0 hf"
    using ps conjunct1 [OF sh] conjunct1 [OF conjunct2 [OF sh]] by (rule shape_prefix)
  have other: "lookup hf cur (e # ks) = lookup h cur (e # ks)" if "e \<noteq> c" for e ks
    using d(1) pre_f d(2) _ d(5)
  proof (rule lookup_agree)
    show "map_of (children (hf ! cur)) e = map_of (children (h ! cur)) e"
      using sh that by simp
  qed
  show ?case
  proof (cases "map_of (children (h ! cur)) c")
    case None
    with Cons.prems(3) show ?thesis by simp
  next
    case (Some child)
    let ?m = "Clone (h ! child)"
    let ?a = "length h"
    let ?h2 = "set_child (h @ [?m]) cur c ?a"
    note cc = child_copy_Some [OF Some]
    note st = path_state_step [OF ps, where c = c, unfolded cc]
    note on = path_state_old_node [OF ps Some]
    note rp = remove_path_Cons_Some [OF cur Some, where cs = cs and pr = pr, unfolded Let_def]
    note res = Cons.prems(3) [unfolded rp]
    have up: "lookup h cur (c # ks) = lookup h child ks" for ks
      using Some by simp
    have below: "lookup hx x (e # ks) = lookup h child (e # ks)"
      if "prefix h0 hx" "children (hx ! x) = children (h ! child)" for hx x e ks
      using d(1) that(1) d(2) _ on(2) by (rule lookup_agree) (simp add: that(2))
    show ?thesis
    proof (cases "cs = []")
      case True
      consider (abort) "node_value (h ! child) = None"
        | (strip) "node_value (h ! child) \<noteq> None" "children (h ! child) \<noteq> []"
        | (leaf) "node_value (h ! child) \<noteq> None" "children (h ! child) = []"
        by blast
      then show ?thesis
      proof cases
        case abort
        with res True have "st = Abort" by simp
        with abort True Some show ?thesis by simp
      next
        case strip
        let ?nn = "TrieNode1 (children (h ! child)) :: ('a, 'b) TrieNode"
        from strip res True
        have hf: "hf = set_child (?h2 @ [?nn]) cur c (Suc ?a)" and stD: "st = Done"
          by auto
        have n_cur: "map_of (children (hf ! cur)) c = Some (Suc ?a)"
          using cur by (simp add: hf nth_set_child nth_append update_conv')
        have n_nn: "hf ! Suc ?a = ?nn"
          using cur by (simp add: hf nth_set_child nth_append)
        have "lookup hf cur key' = (if key' = c # cs then None else lookup h cur key')" for key'
        proof (cases key')
          case Nil
          then show ?thesis using sh by simp
        next
          case (Cons e ks)
          show ?thesis
          proof (cases "e = c")
            case False
            with other [OF False] Cons show ?thesis by simp
          next
            case e: True
            show ?thesis
            proof (cases ks)
              case Nil
              with Cons e True n_cur n_nn show ?thesis by simp
            next
              case (Cons e' ks')
              have "lookup hf (Suc ?a) (e' # ks') = lookup h child (e' # ks')"
                using pre_f by (rule below) (simp add: n_nn)
              with Cons \<open>key' = e # ks\<close> e True n_cur Some show ?thesis
                by simp
            qed
          qed
        qed
        with stD strip True Some show ?thesis by simp
      next
        case leaf
        from leaf res True
        have hf: "hf = erase_child (?h2[?a := ?m\<lparr>is_value_node := False\<rparr>]) cur c"
          and stP: "st = Prune"
          by auto
        have n_cur: "map_of (children (hf ! cur)) c = None"
          using cur by (simp add: hf nth_erase_child delete_conv')
        have "lookup hf cur key' = (if key' = c # cs then None else lookup h cur key')" for key'
        proof (cases key')
          case Nil
          then show ?thesis using sh by simp
        next
          case (Cons e ks)
          show ?thesis
          proof (cases "e = c")
            case False
            with other [OF False] Cons show ?thesis by simp
          next
            case e: True
            show ?thesis
              using Cons e True n_cur Some leaf(2) by (cases ks) simp_all
          qed
        qed
        with stP leaf True Some show ?thesis by simp
      qed
    next
      case False
      obtain h' st' where inner: "remove_path pr ?h2 ?a cs = (h', st')"
        by (cases "remove_path pr ?h2 ?a cs")
      note sh' = remove_path_shape [OF st(1) inner]
      from Cons.IH [OF st(1) False inner]
      have IH1: "st' = Abort \<longleftrightarrow> lookup ?h2 ?a cs = None"
        and IH2: "st' \<noteq> Abort \<Longrightarrow>
              lookup h' ?a ks = (if ks = cs then None else lookup ?h2 ?a ks)" for ks
        by simp_all
      have pre2: "prefix h0 ?h2"
        using st(1) by (simp add: path_state_def)
      have clone: "lookup ?h2 ?a ks = lookup h child ks" for ks
      proof (cases ks)
        case Nil
        then show ?thesis using st(2) by simp
      next
        case (Cons e ks')
        have "lookup ?h2 ?a (e # ks') = lookup h child (e # ks')"
          using pre2 by (rule below) (simp add: st(2))
        with Cons show ?thesis by simp
      qed
      have n_cur': "h' ! cur = ?h2 ! cur"
        using sh' cur by simp
      have link': "map_of (children (h' ! cur)) c = Some ?a"
        unfolding n_cur' st(3) by (simp add: update_conv')
      have hf_cases: "(hf = h' \<and> st = st' \<and> st' \<noteq> Prune) \<or> (hf = h' \<and> st = Done \<and> st' = Prune)
            \<or> (hf = erase_child h' cur c \<and> st = Prune \<and> st' = Prune
                \<and> children (h' ! ?a) = [] \<and> \<not> is_value_node (h' ! ?a))"
        using res False inner by (cases st') (auto split: if_splits)
      have abort_iff: "st = Abort \<longleftrightarrow> lookup h cur (c # cs) = None"
        using hf_cases IH1 clone [of cs] Some by auto
      have lk: "lookup hf cur key' = (if key' = c # cs then None else lookup h cur key')"
        if live: "st \<noteq> Abort" for key'
      proof (cases key')
        case Nil
        then show ?thesis using sh by simp
      next
        case (Cons e ks)
        show ?thesis
        proof (cases "e = c")
          case False
          with other [OF False] Cons show ?thesis by simp
        next
          case e: True
          from hf_cases live have live': "st' \<noteq> Abort"
            by auto
          from hf_cases live consider (keep) "hf = h'"
            | (erase) "hf = erase_child h' cur c" "children (h' ! ?a) = []"
                "\<not> is_value_node (h' ! ?a)"
            by auto
          then show ?thesis
          proof cases
            case keep
            then have "lookup hf cur (c # ks) = lookup h' ?a ks"
              using link' by simp
            with IH2 [OF live', of ks] clone [of ks] Cons e Some show ?thesis
              by simp
          next
            case erase
            have "map_of (children (hf ! cur)) c = None"
              using cur sh'(1) by (simp add: erase(1) nth_erase_child delete_conv')
            then have gone: "lookup hf cur (c # ks) = None"
              by simp
            have "is_value_node (h' ! ?a) = is_value_node (Clone (h ! child))"
              using sh' st(2) by simp
            with erase(3) have "node_value (h ! child) = None"
              by (cases "node_value (h ! child)") simp_all
            moreover have "node_value (h' ! ?a) = node_value (Clone (h ! child))"
              using sh' st(2) by simp
            ultimately have "node_value (h' ! ?a) = None"
              by simp
            with erase(2) have none': "lookup h' ?a ks = None"
              by (cases ks) simp_all
            have rhs: "lookup h child ks = None" if "ks \<noteq> cs"
              using IH2 [OF live', of ks] clone [of ks] none' that by simp
            show ?thesis
            proof (cases "ks = cs")
              case True
              with gone show ?thesis
                unfolding Cons e by simp
            next
              case False
              with gone rhs [OF False] show ?thesis
                unfolding Cons e up by simp
            qed
          qed
        qed
      qed
      show ?thesis
      proof (intro conjI impI allI)
        show "st = Abort \<longleftrightarrow> lookup h cur (c # cs) = None"
          by (rule abort_iff)
      next
        fix key' assume "st \<noteq> Abort"
        then show "lookup hf cur key' = (if key' = c # cs then None else lookup h cur key')"
          by (rule lk)
      qed
    qed
  qed
qed

section \<open>Nodes without a value and without children\<close>

lemma below_ok_iff:
  "below_ok h a \<longleftrightarrow>
     (\<forall>c b. map_of (children (h ! a)) c = Some b \<longrightarrow> nonempty_node (h ! b) \<and> below_ok h b)"
proof
  assume ok: "below_ok h a"
  show "\<forall>c b. map_of (children (h ! a)) c = Some b \<longrightarrow> nonempty_node (h ! b) \<and> below_ok h b"
  proof (intro allI impI conjI)
    fix c b assume link: "map_of (children (h ! a)) c = Some b"
    then have "walk h a [c] = Some b" by simp
    with ok show "nonempty_node (h ! b)"
      unfolding below_ok_def by blast
    show "below_ok h b"
      unfolding below_ok_def
    proof (intro allI impI)
      fix key b' assume "key \<noteq> []" "walk h b key = Some b'"
      with link have "walk h a (c # key) = Some b'" by simp
      with ok show "nonempty_node (h ! b')"
        unfolding below_ok_def by blast
    qed
  qed
next
  assume links: "\<forall>c b. map_of (children (h ! a)) c = Some b \<longrightarrow>
                   nonempty_node (h ! b) \<and> below_ok h b"
  show "below_ok h a"
    unfolding below_ok_def
  proof (intro allI impI)
    fix key b' assume key: "key \<noteq> []" and w: "walk h a key = Some b'"
    from key obtain c ks where k: "key = c # ks" by (cases key) auto
    with w obtain b where link: "map_of (children (h ! a)) c = Some b"
      and w': "walk h b ks = Some b'"
      by (auto split: option.splits)
    from links link have b: "nonempty_node (h ! b)" "below_ok h b" by auto
    show "nonempty_node (h ! b')"
    proof (cases "ks = []")
      case True
      with w' b(1) show ?thesis by simp
    next
      case False
      with b(2) w' show ?thesis
        unfolding below_ok_def by blast
    qed
  qed
qed

lemma below_ok_prefix:
  assumes "heap_closed h0" "prefix h0 hx" "b < length h0"
  shows "below_ok hx b = below_ok h0 b"
    and "nonempty_node (hx ! b) = nonempty_node (h0 ! b)"
proof -
  have "nonempty_node (hx ! b') = nonempty_node (h0 ! b')" if "walk h0 b key = Some b'" for key b'
    using walk_prefix(2) [OF assms that] by simp
  moreover have "walk hx b key = walk h0 b key" for key
    using assms by (rule walk_prefix(1))
  ultimately show "below_ok hx b = below_ok h0 b"
    unfolding below_ok_def by auto
  show "nonempty_node (hx ! b) = nonempty_node (h0 ! b)"
    using prefix_nth [OF assms(2,3)] by simp
qed

lemma below_ok_same_children:
  assumes "heap_closed h0" "prefix h0 hx" "prefix h0 hy"
    and "children (hx ! x) = children (hy ! y)" "kids_below (length h0) (hy ! y)"
    and "below_ok hy y"
  shows "below_ok hx x"
  unfolding below_ok_iff [of hx x]
proof (intro allI impI)
  fix c b assume "map_of (children (hx ! x)) c = Some b"
  then have link: "map_of (children (hy ! y)) c = Some b"
    using assms(4) by simp
  then have b: "b < length h0"
    using assms(5) kids_below_map_of by blast
  from assms(6) link have "nonempty_node (hy ! b) \<and> below_ok hy b"
    unfolding below_ok_iff [of hy y] by blast
  then show "nonempty_node (hx ! b) \<and> below_ok hx b"
    using below_ok_prefix [OF assms(1,2) b] below_ok_prefix [OF assms(1,3) b] by simp
qed

lemma below_ok_no_children: "children (h ! a) = [] \<Longrightarrow> below_ok h a"
  unfolding below_ok_iff [of h a] by simp

lemma below_ok_child_copy:
  assumes "path_state h0 h cur" "below_ok h cur" "prefix h0 hx"
    and "children (hx ! x) = children (child_copy h cur c)"
  shows "below_ok hx x"
proof (cases "map_of (children (h ! cur)) c")
  case None
  with assms(4) have "children (hx ! x) = []"
    by (simp add: child_copy_def)
  then show ?thesis by (rule below_ok_no_children)
next
  case (Some child)
  note d = path_stateD [OF assms(1)]
  note on = path_state_old_node [OF assms(1) Some]
  have "below_ok h child"
    using assms(2) Some unfolding below_ok_iff [of h cur] by blast
  with d(1) assms(3) d(2) _ on(2) show ?thesis
    by (rule below_ok_same_children) (use assms(4) Some in \<open>simp add: child_copy_def\<close>)
qed

lemma below_ok_other_links:
  assumes "path_state h0 h cur" "below_ok h cur" "prefix h0 hf"
    and "map_of (children (hf ! cur)) d = map_of (children (h ! cur)) d"
    and "map_of (children (hf ! cur)) d = Some b"
  shows "nonempty_node (hf ! b) \<and> below_ok hf b"
proof -
  note d = path_stateD [OF assms(1)]
  have link: "map_of (children (h ! cur)) d = Some b"
    using assms(4,5) by simp
  then have b: "b < length h0"
    using d(5) kids_below_map_of by blast
  from assms(2) link have "nonempty_node (h ! b) \<and> below_ok h b"
    unfolding below_ok_iff [of h cur] by blast
  then show ?thesis
    using below_ok_prefix [OF d(1) assms(3) b] below_ok_prefix [OF d(1,2) b] by simp
qed

lemma put_path_below:
  assumes "path_state h0 h cur" "key \<noteq> []" "below_ok h cur"
  shows "below_ok (put_path h cur key T v) cur"
  using assms
proof (induction key arbitrary: h cur)
  case Nil
  then show ?case by simp
next
  case (Cons c cs)
  note ps = Cons.prems(1) and ok = Cons.prems(3)
  note d = path_stateD [OF ps]
  have cur: "cur < length h"
    using d(4) by simp
  let ?m = "child_copy h cur c"
  let ?a = "length h"
  let ?h2 = "set_child (h @ [?m]) cur c ?a"
  let ?hf = "put_path h cur (c # cs) T v"
  note st = path_state_step [OF ps, where c = c]
  from put_path_shape [OF ps, of "c # cs" T v]
  have sh: "length h \<le> length ?hf" "\<forall>b<cur. ?hf ! b = h ! b"
    by (simp_all add: Let_def)
  have pre_f: "prefix h0 ?hf"
    using ps sh by (rule shape_prefix)
  have pre2: "prefix h0 ?h2"
    using st(1) by (simp add: path_state_def)
  have main: "\<exists>x. children (?hf ! cur) = AList.update c x (children (h ! cur))
                \<and> nonempty_node (?hf ! x) \<and> below_ok ?hf x"
  proof (cases "cs = []")
    case True
    let ?vn = "TrieNodeWithValue (children ?m) T v"
    have hf: "?hf = set_child (?h2 @ [?vn]) cur c (Suc ?a)"
      by (subst put_path_Cons [OF cur]) (simp add: True Let_def)
    have n_cur: "children (?hf ! cur) = AList.update c (Suc ?a) (children (h ! cur))"
      unfolding hf using cur st(3) by (simp add: nth_set_child nth_append)
    have n_vn: "?hf ! Suc ?a = ?vn"
      unfolding hf using cur by (simp add: nth_set_child nth_append)
    have "children (?hf ! Suc ?a) = children (child_copy h cur c)"
      unfolding n_vn by simp
    with ps ok pre_f have "below_ok ?hf (Suc ?a)"
      by (rule below_ok_child_copy)
    moreover have "nonempty_node (?hf ! Suc ?a)"
      unfolding n_vn by (simp add: nonempty_node_def)
    ultimately show ?thesis
      using n_cur by blast
  next
    case False
    have hf: "?hf = put_path ?h2 ?a cs T v"
      by (subst put_path_Cons [OF cur]) (simp add: False Let_def)
    from put_path_shape [OF st(1) False, of T v]
    have sh2: "\<forall>b<?a. ?hf ! b = ?h2 ! b" "children (?hf ! ?a) \<noteq> []"
      unfolding hf by (simp_all add: Let_def)
    have n_cur: "children (?hf ! cur) = AList.update c ?a (children (h ! cur))"
      using sh2(1) cur st(3) by simp
    have "children (?h2 ! ?a) = children (child_copy h cur c)"
      by (simp only: st(2))
    with ps ok pre2 have "below_ok ?h2 ?a"
      by (rule below_ok_child_copy)
    with st(1) False have "below_ok ?hf ?a"
      unfolding hf by (rule Cons.IH)
    moreover have "nonempty_node (?hf ! ?a)"
      unfolding nonempty_node_def using sh2(2) by blast
    ultimately show ?thesis
      using n_cur by blast
  qed
  then obtain x where n_cur: "children (?hf ! cur) = AList.update c x (children (h ! cur))"
    and x: "nonempty_node (?hf ! x)" "below_ok ?hf x"
    by blast
  show ?case
    unfolding below_ok_iff [of ?hf cur]
  proof (intro allI impI)
    fix e b assume link: "map_of (children (?hf ! cur)) e = Some b"
    show "nonempty_node (?hf ! b) \<and> below_ok ?hf b"
    proof (cases "e = c")
      case True
      have "b = x"
        using link unfolding n_cur True by (simp add: update_conv')
      with x show ?thesis by (simp only:)
    next
      case False
      have "map_of (children (?hf ! cur)) e = map_of (children (h ! cur)) e"
        unfolding n_cur using False by (simp add: update_conv')
      with ps ok pre_f show ?thesis
        using link by (rule below_ok_other_links)
    qed
  qed
qed

lemma remove_path_below:
  assumes "path_state h0 h cur" "below_ok h cur" "remove_path True h cur key = (hf, st)"
    "st \<noteq> Abort"
  shows "below_ok hf cur"
  using assms
proof (induction key arbitrary: h cur hf st)
  case Nil
  then show ?case by simp
next
  case (Cons c cs)
  note ps = Cons.prems(1) and ok = Cons.prems(2)
  note d = path_stateD [OF ps]
  have cur: "cur < length h"
    using d(4) by simp
  note sh = remove_path_shape [OF ps Cons.prems(3)]
  have pre_f: "prefix h0 hf"
    using ps conjunct1 [OF sh] conjunct1 [OF conjunct2 [OF sh]] by (rule shape_prefix)
  have others: "map_of (children (hf ! cur)) e = map_of (children (h ! cur)) e" if "e \<noteq> c" for e
    using sh that by simp
  show ?case
  proof (cases "map_of (children (h ! cur)) c")
    case None
    with Cons.prems(3,4) show ?thesis by simp
  next
    case (Some child)
    let ?m = "Clone (h ! child)"
    let ?a = "length h"
    let ?h2 = "set_child (h @ [?m]) cur c ?a"
    note cc = child_copy_Some [OF Some]
    note st = path_state_step [OF ps, where c = c, unfolded cc]
    note rp = remove_path_Cons_Some [OF cur Some, where cs = cs and pr = True, unfolded Let_def]
    note res = Cons.prems(3) [unfolded rp]
    have pre2: "prefix h0 ?h2"
      using st(1) by (simp add: path_state_def)
    have main: "map_of (children (hf ! cur)) c = None
        \<or> (\<exists>x. map_of (children (hf ! cur)) c = Some x \<and> nonempty_node (hf ! x) \<and> below_ok hf x)"
    proof (cases "cs = []")
      case True
      consider (abort) "node_value (h ! child) = None"
        | (strip) "node_value (h ! child) \<noteq> None" "children (h ! child) \<noteq> []"
        | (leaf) "node_value (h ! child) \<noteq> None" "children (h ! child) = []"
        by blast
      then show ?thesis
      proof cases
        case abort
        with res True have "st = Abort" by simp
        with Cons.prems(4) show ?thesis by simp
      next
        case strip
        let ?nn = "TrieNode1 (children (h ! child)) :: ('a, 'b) TrieNode"
        from strip res True
        have hf: "hf = set_child (?h2 @ [?nn]) cur c (Suc ?a)"
          by auto
        have n_cur: "map_of (children (hf ! cur)) c = Some (Suc ?a)"
          using cur by (simp add: hf nth_set_child nth_append update_conv')
        have n_nn: "hf ! Suc ?a = ?nn"
          using cur by (simp add: hf nth_set_child nth_append)
        have "children (hf ! Suc ?a) = children (child_copy h cur c)"
          by (simp add: n_nn cc)
        with ps ok pre_f have "below_ok hf (Suc ?a)"
          by (rule below_ok_child_copy)
        moreover have "nonempty_node (hf ! Suc ?a)"
          using strip(2) by (simp add: n_nn nonempty_node_def)
        ultimately show ?thesis
          using n_cur by blast
      next
        case leaf
        from leaf res True
        have hf: "hf = erase_child (?h2[?a := ?m\<lparr>is_value_node := False\<rparr>]) cur c"
          by auto
        have "map_of (children (hf ! cur)) c = None"
          using cur by (simp add: hf nth_erase_child delete_conv')
        then show ?thesis ..
      qed
    next
      case False
      obtain h' st' where inner: "remove_path True ?h2 ?a cs = (h', st')"
        by (cases "remove_path True ?h2 ?a cs")
      note sh' = remove_path_shape [OF st(1) inner]
      have n_cur': "h' ! cur = ?h2 ! cur"
        using sh' cur by simp
      have link': "map_of (children (h' ! cur)) c = Some ?a"
        unfolding n_cur' st(3) by (simp add: update_conv')
      have hf_cases: "(hf = h' \<and> st = st' \<and> st' \<noteq> Prune) \<or> (hf = h' \<and> st = Done \<and> st' = Prune
                \<and> \<not> (children (h' ! ?a) = [] \<and> \<not> is_value_node (h' ! ?a)))
            \<or> (hf = erase_child h' cur c \<and> st = Prune \<and> st' = Prune)"
        using res False inner by (cases st') (auto split: if_splits)
      with Cons.prems(4) consider (fin) "hf = h'" "st' = Done"
        | (kept) "hf = h'" "st' = Prune" "children (h' ! ?a) \<noteq> [] \<or> is_value_node (h' ! ?a)"
        | (erase) "hf = erase_child h' cur c"
        by (cases st') auto
      then show ?thesis
      proof cases
        case fin
        have "children (?h2 ! ?a) = children (child_copy h cur c)"
          by (simp add: st(2) cc)
        with ps ok pre2 have "below_ok ?h2 ?a"
          by (rule below_ok_child_copy)
        with st(1) have "below_ok h' ?a"
          using inner by (rule Cons.IH) (simp add: fin(2))
        moreover have "nonempty_node (h' ! ?a)"
          using sh' fin(2) by (simp add: nonempty_node_def)
        ultimately show ?thesis
          using link' fin(1) by blast
      next
        case kept
        have "children (?h2 ! ?a) = children (child_copy h cur c)"
          by (simp add: st(2) cc)
        with ps ok pre2 have "below_ok ?h2 ?a"
          by (rule below_ok_child_copy)
        with st(1) have "below_ok h' ?a"
          using inner by (rule Cons.IH) (simp add: kept(2))
        moreover have "is_value_node (h' ! ?a) = (node_value (h' ! ?a) \<noteq> None)"
          using sh' st(2) by simp
        with kept(3) have "nonempty_node (h' ! ?a)"
          by (auto simp: nonempty_node_def)
        ultimately show ?thesis
          using link' kept(1) by blast
      next
        case erase
        have "map_of (children (hf ! cur)) c = None"
          using cur conjunct1 [OF sh'] by (simp add: erase nth_erase_child delete_conv')
        then show ?thesis ..
      qed
    qed
    show ?thesis
      unfolding below_ok_iff [of hf cur]
    proof (intro allI impI)
      fix e b assume link: "map_of (children (hf ! cur)) e = Some b"
      show "nonempty_node (hf ! b) \<and> below_ok hf b"
      proof (cases "e = c")
        case True
        with link main show ?thesis by auto
      next
        case False
        from ps ok pre_f others [OF False] link show ?thesis
          by (rule below_ok_other_links)
      qed
    qed
  qed
qed

section \<open>Remove for keys of any length\<close>

lemma Remove_loop_abort:
  assumes "key \<noteq> []"
  shows "case Remove_loop h cur pre key of
           (h2, None) \<Rightarrow> remove_path pr h cur key = (h2, Abort)
         | (h2, Some (lst, path)) \<Rightarrow>
             if is_value_node (h2 ! lst) then snd (remove_path pr h cur key) \<noteq> Abort
             else remove_path pr h cur key = (h2, Abort)"
  using assms
proof (induction key arbitrary: h cur pre)
  case Nil
  then show ?case by simp
next
  case (Cons c cs)
  show ?case
  proof (cases "map_of (children (h ! cur)) c")
    case None
    then show ?thesis by simp
  next
    case (Some child)
    let ?a = "length h"
    let ?h2 = "set_child (h @ [Clone (h ! child)]) cur c ?a"
    have loop: "Remove_loop h cur pre (c # cs) = Remove_loop ?h2 ?a (pre @ [cur]) cs"
      using Some by (simp add: alloc_def)
    show ?thesis
    proof (cases "cs = []")
      case True
      then show ?thesis
        unfolding loop using Some by (simp add: alloc_def Let_def)
    next
      case False
      have path: "remove_path pr h cur (c # cs) =
          (case remove_path pr ?h2 ?a cs of
             (h', Prune) \<Rightarrow>
               if pr \<and> children (h' ! ?a) = [] \<and> \<not> is_value_node (h' ! ?a)
               then (erase_child h' cur c, Prune)
               else (h', Done)
           | (h', st) \<Rightarrow> (h', st))"
        using Some False by (simp add: alloc_def)
      obtain hf st where rp: "remove_path pr ?h2 ?a cs = (hf, st)"
        by (cases "remove_path pr ?h2 ?a cs")
      have out: "snd (remove_path pr h cur (c # cs)) \<noteq> Abort" if "st \<noteq> Abort"
        unfolding path rp using that by (cases st) simp_all
      have out': "remove_path pr h cur (c # cs) = (hf, Abort)" if "st = Abort"
        unfolding path rp using that by simp
      from Cons.IH [OF False, of ?h2 ?a "pre @ [cur]"] out out' show ?thesis
        unfolding loop rp by (auto split: option.splits prod.splits if_splits)
    qed
  qed
qed

lemma Remove_abort:
  assumes "key \<noteq> []" "root t = Some r"
    and "remove_path pr (h @ [Clone (h ! r)]) (length h) key = (hf, Abort)"
  shows "Remove h t key = Inr (hf, t)"
proof -
  let ?h1 = "h @ [Clone (h ! r)]"
  obtain h2 res where rl: "Remove_loop ?h1 (length h) [] key = (h2, res)"
    by (cases "Remove_loop ?h1 (length h) [] key")
  from Remove_loop_abort [OF assms(1), where h = ?h1 and cur = "length h" and pre = "[]" and pr = pr] assms(3)
  have "case res of None \<Rightarrow> hf = h2
        | Some (lst, path) \<Rightarrow> \<not> is_value_node (h2 ! lst) \<and> hf = h2"
    unfolding rl by (auto split: option.splits if_splits)
  then show ?thesis
    using assms(2) by (auto simp: Remove_def alloc_def rl Remove_tail_def split: option.splits)
qed

lemma cleanup_start_less: "cleanup_start path < 2 ^ 31"
  using sint_lt [of "ucast ((word_of_nat (length path) :: 64 word) - 1) :: 32 word"]
  by (simp add: cleanup_start_def)

lemma cleanup_stop:
  assumes "0 \<le> i" "children (h ! (path ! nat i)) \<noteq> []"
  shows "cleanup h path key i = h"
  using assms by (subst cleanup.simps) simp

lemma Remove_loop_path:
  assumes "Remove_loop h cur pre key = (h2, Some (lst, path))" "length h = Suc cur"
  shows "path = pre @ [cur ..< cur + length key]"
  using assms
proof (induction key arbitrary: h cur pre)
  case Nil
  then show ?case by simp
next
  case (Cons c cs)
  from Cons.prems(1) obtain child where Some: "map_of (children (h ! cur)) c = Some child"
    by (auto split: option.splits)
  let ?h2 = "set_child (h @ [Clone (h ! child)]) cur c (length h)"
  have "Remove_loop ?h2 (length h) (pre @ [cur]) cs = (h2, Some (lst, path))"
    using Cons.prems(1) Some by (simp add: alloc_def)
  then have "path = (pre @ [cur]) @ [length h ..< length h + length cs]"
    by (rule Cons.IH) simp
  then have "path = pre @ cur # [Suc cur ..< Suc cur + length cs]"
    unfolding Cons.prems(2) by simp
  moreover have "[cur ..< cur + length (c # cs)] = cur # [Suc cur ..< Suc cur + length cs]"
    by (subst upt_conv_Cons) simp_all
  ultimately show ?case
    by (simp only:)
qed

lemma Remove_loop_noprune:
  assumes "key \<noteq> []"
  shows "case Remove_loop h cur pre key of
           (h2, None) \<Rightarrow> remove_path False h cur key = (h2, Abort)
         | (h2, Some (lst, path)) \<Rightarrow>
             (case remove_path False h cur key of
                (hb, Abort) \<Rightarrow> Remove_tail h2 t nr lst path (kpre @ key) = Inr (hb, t)
              | (hb, st) \<Rightarrow>
                  Remove_tail h2 t nr lst path (kpre @ key) = Inr (hb, Trie (Some nr))
                  \<or> Remove_tail h2 t nr lst path (kpre @ key) =
                      Inr (cleanup hb path (kpre @ key) (cleanup_start path), Trie (Some nr)))"
  using assms
proof (induction key arbitrary: h cur pre kpre)
  case Nil
  then show ?case by simp
next
  case (Cons c cs)
  show ?case
  proof (cases "map_of (children (h ! cur)) c")
    case None
    then show ?thesis by simp
  next
    case (Some child)
    let ?a = "length h"
    let ?h2 = "set_child (h @ [Clone (h ! child)]) cur c ?a"
    have loop: "Remove_loop h cur pre (c # cs) = Remove_loop ?h2 ?a (pre @ [cur]) cs"
      using Some by (simp add: alloc_def)
    show ?thesis
    proof (cases "cs = []")
      case True
      show ?thesis
        unfolding loop using True Some
        by (simp add: Remove_tail_def alloc_def Let_def nth_append)
    next
      case False
      have path: "remove_path False h cur (c # cs) =
          (case remove_path False ?h2 ?a cs of
             (h', Prune) \<Rightarrow> (h', Done)
           | (h', st) \<Rightarrow> (h', st))"
        using Some False by (simp add: alloc_def)
      obtain hb st where rp: "remove_path False ?h2 ?a cs = (hb, st)"
        by (cases "remove_path False ?h2 ?a cs")
      have out: "remove_path False h cur (c # cs) = (hb, if st = Prune then Done else st)"
        unfolding path rp by (cases st) simp_all
      from Cons.IH [OF False, where h = ?h2 and cur = ?a and pre = "pre @ [cur]"
          and kpre = "kpre @ [c]"] show ?thesis
        unfolding loop rp out by (cases st) (auto split: option.splits prod.splits)
    qed
  qed
qed

lemma remove_path_links:
  assumes "path_state h0 h cur" "remove_path False h cur key = (hb, st)" "st \<noteq> Abort"
  shows "\<forall>b. cur \<le> b \<and> Suc b < cur + length key \<longrightarrow> children (hb ! b) \<noteq> []"
  using assms
proof (induction key arbitrary: h cur hb st)
  case Nil
  then show ?case by simp
next
  case (Cons c cs)
  note ps = Cons.prems(1)
  note d = path_stateD [OF ps]
  have cur: "cur < length h"
    using d(4) by simp
  show ?case
  proof (cases "map_of (children (h ! cur)) c")
    case None
    with Cons.prems(2,3) show ?thesis by simp
  next
    case (Some child)
    let ?m = "Clone (h ! child)"
    let ?a = "length h"
    let ?h2 = "set_child (h @ [?m]) cur c ?a"
    note cc = child_copy_Some [OF Some]
    note st = path_state_step [OF ps, where c = c, unfolded cc]
    note rp = remove_path_Cons_Some [OF cur Some, where cs = cs and pr = False, unfolded Let_def]
    note res = Cons.prems(2) [unfolded rp]
    show ?thesis
    proof (cases "cs = []")
      case True
      then show ?thesis by auto
    next
      case False
      obtain h' st' where inner: "remove_path False ?h2 ?a cs = (h', st')"
        by (cases "remove_path False ?h2 ?a cs")
      note sh' = remove_path_shape [OF st(1) inner]
      from res False inner Cons.prems(3) have hb: "hb = h'" and live: "st' \<noteq> Abort"
        by (cases st'; simp)+
      have IH: "\<forall>b. ?a \<le> b \<and> Suc b < ?a + length cs \<longrightarrow> children (h' ! b) \<noteq> []"
        using st(1) inner live by (rule Cons.IH)
      have "h' ! cur = ?h2 ! cur"
        using sh' cur by simp
      then have n_cur: "children (h' ! cur) \<noteq> []"
        unfolding st(3) by simp
      show ?thesis
        unfolding hb
      proof (intro allI impI)
        fix b assume b: "cur \<le> b \<and> Suc b < cur + length (c # cs)"
        show "children (h' ! b) \<noteq> []"
        proof (cases "b = cur")
          case True
          with n_cur show ?thesis by simp
        next
          case False
          with b d(4) have "?a \<le> b \<and> Suc b < ?a + length cs" by simp
          with IH show ?thesis by blast
        qed
      qed
    qed
  qed
qed

lemma path_state_root_Some:
  assumes "trie_ok h t" "root t = Some r"
  shows "path_state h (h @ [Clone (h ! r)]) (length h)"
  using path_state_root [OF assms(1)] assms(2) by (simp add: root_copy_def)

text \<open>\<open>Remove\<close> with a non-empty key, in terms of \<open>remove_path\<close>.  The cleaning loop
  starts at the last index of \<open>path\<close> when that fits an \<^verbatim>\<open>int\<close>; otherwise it starts
  at an earlier node, which still has its child, and stops at once.\<close>

lemma Remove_general:
  assumes ok: "trie_ok h t" and Some: "root t = Some r" and key: "key \<noteq> []"
  shows "\<exists>pr. (length key \<le> 2 ^ 31 \<longrightarrow> pr) \<and>
           Remove h t key =
             (case remove_path pr (h @ [Clone (h ! r)]) (length h) key of
                (hf, Abort) \<Rightarrow> Inr (hf, t)
              | (hf, st) \<Rightarrow> Inr (hf, Trie (Some (length h))))"
proof (cases "length key \<le> 2 ^ 31")
  case True
  with Remove_nonempty [OF key True Some, of h] show ?thesis
    by blast
next
  case False
  let ?h1 = "h @ [Clone (h ! r)]"
  let ?L = "length h"
  note ps = path_state_root_Some [OF ok Some]
  obtain hb st where rp: "remove_path False ?h1 ?L key = (hb, st)"
    by (cases "remove_path False ?h1 ?L key")
  obtain h2 res where rl: "Remove_loop ?h1 ?L [] key = (h2, res)"
    by (cases "Remove_loop ?h1 ?L [] key")
  note np = Remove_loop_noprune [OF key, where h = ?h1 and cur = ?L and pre = "[]"
      and kpre = "[]" and t = t and nr = ?L, unfolded rl rp]
  have "Remove h t key = (case st of Abort \<Rightarrow> Inr (hb, t) | _ \<Rightarrow> Inr (hb, Trie (Some ?L)))"
  proof (cases res)
    case None
    with np have "hb = h2" "st = Abort" by simp_all
    with None Some show ?thesis
      by (simp add: Remove_def alloc_def rl)
  next
    case (Some lp)
    obtain lst path where lp: "lp = (lst, path)" by (cases lp)
    have rem: "Remove h t key = Remove_tail h2 t ?L lst path key"
      using \<open>root t = Some r\<close> by (simp add: Remove_def alloc_def rl Some lp)
    show ?thesis
    proof (cases "st = Abort")
      case True
      with np show ?thesis
        unfolding rem Some lp by simp
    next
      case live: False
      have path: "path = [?L ..< ?L + length key]"
        using Remove_loop_path [OF rl [unfolded Some lp]] by simp
      have "cleanup hb path key (cleanup_start path) = hb"
      proof (cases "cleanup_start path < 0")
        case True
        then show ?thesis by (rule cleanup_negative)
      next
        case nonneg: False
        have "cleanup_start path < 2 ^ 31"
          by (rule cleanup_start_less)
        with nonneg have "nat (cleanup_start path) < 2 ^ 31"
          by simp
        with False have j: "Suc (nat (cleanup_start path)) < length key"
          by simp
        then have "path ! nat (cleanup_start path) = ?L + nat (cleanup_start path)"
          unfolding path by simp
        moreover have "children (hb ! (?L + nat (cleanup_start path))) \<noteq> []"
          using remove_path_links [OF ps rp live] j by simp
        ultimately show ?thesis
          using nonneg by (intro cleanup_stop) simp_all
      qed
      with np live show ?thesis
        unfolding rem Some lp by (cases st) auto
    qed
  qed
  then have "Remove h t key =
             (case remove_path False ?h1 ?L key of
                (hf, Abort) \<Rightarrow> Inr (hf, t)
              | (hf, st) \<Rightarrow> Inr (hf, Trie (Some ?L)))"
    unfolding rp by (cases st) simp_all
  with False show ?thesis
    by blast
qed

lemma walk_agree:
  assumes "heap_closed h0" "prefix h0 hx" "prefix h0 hy"
    and "map_of (children (hx ! a)) d = map_of (children (hy ! b)) d"
    and "kids_below (length h0) (hy ! b)"
  shows "walk hx a (d # ks) = walk hy b (d # ks)"
    and "walk hy b (d # ks) = Some x \<Longrightarrow> hx ! x = hy ! x"
proof -
  have *: "walk hx a (d # ks) = walk hy b (d # ks)
           \<and> (walk hy b (d # ks) = Some x \<longrightarrow> hx ! x = hy ! x)"
  proof (cases "map_of (children (hy ! b)) d")
    case None
    with assms(4) show ?thesis by simp
  next
    case (Some y)
    have y: "y < length h0"
      using assms(5) Some by (rule kids_below_map_of)
    note wx = walk_prefix [OF assms(1,2) y]
    note wy = walk_prefix [OF assms(1,3) y]
    have "walk hx y ks = walk hy y ks"
      using wx(1) [of ks] wy(1) [of ks] by simp
    moreover have "hx ! x = hy ! x" if "walk hy y ks = Some x"
    proof -
      from that have "walk h0 y ks = Some x"
        using wy(1) [of ks] by simp
      with wx(2) wy(2) show ?thesis by simp
    qed
    ultimately show ?thesis
      using assms(4) Some by simp
  qed
  from * show "walk hx a (d # ks) = walk hy b (d # ks)" ..
  from * show "walk hy b (d # ks) = Some x \<Longrightarrow> hx ! x = hy ! x" by blast
qed

text \<open>A node with a value and children is replaced by a plain node with the same
  children.\<close>

lemma remove_path_strip:
  assumes "path_state h0 h cur" "key \<noteq> []" "walk h cur key = Some a"
    "node_value (h ! a) \<noteq> None" "children (h ! a) \<noteq> []"
    "remove_path pr h cur key = (hf, st)"
  shows "\<exists>x. walk hf cur key = Some x \<and> hf ! x = TrieNode1 (children (h ! a))"
  using assms
proof (induction key arbitrary: h cur hf st)
  case Nil
  then show ?case by simp
next
  case (Cons c cs)
  note ps = Cons.prems(1)
  note d = path_stateD [OF ps]
  have cur: "cur < length h"
    using d(4) by simp
  from Cons.prems(3) obtain child where Some: "map_of (children (h ! cur)) c = Some child"
    and wc: "walk h child cs = Some a"
    by (auto split: option.splits)
  let ?m = "Clone (h ! child)"
  let ?a = "length h"
  let ?h2 = "set_child (h @ [?m]) cur c ?a"
  note cc = child_copy_Some [OF Some]
  note st = path_state_step [OF ps, where c = c, unfolded cc]
  note on = path_state_old_node [OF ps Some]
  note rp = remove_path_Cons_Some [OF cur Some, where cs = cs and pr = pr, unfolded Let_def]
  note res = Cons.prems(6) [unfolded rp]
  show ?case
  proof (cases "cs = []")
    case True
    with wc have a: "a = child" by simp
    let ?nn = "TrieNode1 (children (h ! child)) :: ('a, 'b) TrieNode"
    from res True Cons.prems(4,5) a
    have hf: "hf = set_child (?h2 @ [?nn]) cur c (Suc ?a)"
      by auto
    have "map_of (children (hf ! cur)) c = Some (Suc ?a)"
      using cur by (simp add: hf nth_set_child nth_append update_conv')
    moreover have "hf ! Suc ?a = ?nn"
      using cur by (simp add: hf nth_set_child nth_append)
    ultimately show ?thesis
      using True a by simp
  next
    case False
    then obtain e ks where cs: "cs = e # ks" by (cases cs) auto
    obtain h' st' where inner: "remove_path pr ?h2 ?a cs = (h', st')"
      by (cases "remove_path pr ?h2 ?a cs")
    note sh' = remove_path_shape [OF st(1) inner]
    have pre2: "prefix h0 ?h2"
      using st(1) by (simp add: path_state_def)
    have eq: "map_of (children (?h2 ! ?a)) e = map_of (children (h ! child)) e"
      by (simp add: st(2))
    note wa = walk_agree [OF d(1) pre2 d(2) eq on(2)]
    have w2: "walk ?h2 ?a cs = Some a"
      using wa(1) [of ks] wc cs by simp
    have same: "?h2 ! a = h ! a"
      using wa(2) [of ks a] wc cs by simp
    from Cons.IH [OF st(1) False w2 _ _ inner] Cons.prems(4,5) same
    obtain x where x: "walk h' ?a cs = Some x" "h' ! x = TrieNode1 (children (h ! a))"
      by auto
    from x(1) cs have kids: "children (h' ! ?a) \<noteq> []"
      by (auto split: option.splits)
    have hf: "hf = h'"
      using res False inner kids by (cases st') (auto split: if_splits)
    have "h' ! cur = ?h2 ! cur"
      using sh' cur by simp
    then have "map_of (children (h' ! cur)) c = Some ?a"
      unfolding st(3) by (simp add: update_conv')
    with x show ?thesis
      unfolding hf by simp
  qed
qed

section \<open>Get, Put and Remove on well-formed tries\<close>

lemma Get_trie_lookup:
  "Get h t T key =
     (case trie_lookup h t key of
        None \<Rightarrow> None
      | Some (T', v) \<Rightarrow> if T' = T then Some v else None)"
  by (simp add: Get_def trie_lookup_def lookup_def value_as_def split: option.splits)

lemma pruned_iff:
  "pruned h t \<longleftrightarrow>
     (case root t of None \<Rightarrow> True | Some r \<Rightarrow> nonempty_node (h ! r) \<and> below_ok h r)"
proof (cases "root t")
  case None
  then show ?thesis by (simp add: pruned_def)
next
  case (Some r)
  have "(\<forall>key a. walk h r key = Some a \<longrightarrow> nonempty_node (h ! a))
        \<longleftrightarrow> nonempty_node (h ! r) \<and> below_ok h r"
  proof
    assume all: "\<forall>key a. walk h r key = Some a \<longrightarrow> nonempty_node (h ! a)"
    have "walk h r [] = Some r" by simp
    with all have "nonempty_node (h ! r)" by blast
    with all show "nonempty_node (h ! r) \<and> below_ok h r"
      by (simp add: below_ok_def)
  next
    assume ok: "nonempty_node (h ! r) \<and> below_ok h r"
    show "\<forall>key a. walk h r key = Some a \<longrightarrow> nonempty_node (h ! a)"
    proof (intro allI impI)
      fix key a assume "walk h r key = Some a"
      with ok show "nonempty_node (h ! a)"
        by (cases "key = []") (auto simp: below_ok_def)
    qed
  qed
  with Some show ?thesis by (simp add: pruned_def)
qed

lemma root_clone_lookup:
  assumes "trie_ok h t" "root t = Some r"
  shows "lookup (h @ [Clone (h ! r)]) (length h) key = lookup h r key"
proof -
  from assms have closed: "heap_closed h" and r: "r < length h"
    by (simp_all add: trie_ok_def)
  show ?thesis
  proof (cases key)
    case Nil
    then show ?thesis by simp
  next
    case (Cons e ks)
    have "lookup (h @ [Clone (h ! r)]) (length h) (e # ks) = lookup h r (e # ks)"
      using closed
    proof (rule lookup_agree)
      show "prefix h (h @ [Clone (h ! r)])" by simp
      show "prefix h h" by simp
      show "map_of (children ((h @ [Clone (h ! r)]) ! length h)) e = map_of (children (h ! r)) e"
        by simp
      show "kids_below (length h) (h ! r)"
        using closed r by (rule heap_closed_nth)
    qed
    with Cons show ?thesis by simp
  qed
qed

lemma root_clone_below:
  assumes "trie_ok h t" "root t = Some r" "below_ok h r"
  shows "below_ok (h @ [Clone (h ! r)]) (length h)"
proof -
  from assms have closed: "heap_closed h" and r: "r < length h"
    by (simp_all add: trie_ok_def)
  show ?thesis
    using closed
  proof (rule below_ok_same_children)
    show "prefix h (h @ [Clone (h ! r)])" by simp
    show "prefix h h" by simp
    show "children ((h @ [Clone (h ! r)]) ! length h) = children (h ! r)"
      by simp
    show "kids_below (length h) (h ! r)"
      using closed r by (rule heap_closed_nth)
    show "below_ok h r" by (rule assms(3))
  qed
qed

lemma kids_from_closed:
  assumes "heap_closed h" "prefix h hf" "kids_from (length h) hf"
  shows "heap_closed hf"
  using assms(1,2)
proof (rule heap_closedI)
  fix b assume "length h \<le> b" "b < length hf"
  with assms(3) show "kids_below (length hf) (hf ! b)"
    by (simp add: kids_from_def)
qed

text \<open>\<open>Remove\<close> of a key that holds no value: nothing is published.\<close>

lemma Remove_noop:
  assumes ok: "trie_ok h t" and none: "trie_lookup h t key = None"
  shows "\<exists>hf. Remove h t key = Inr (hf, t) \<and> prefix h hf \<and> heap_closed hf"
proof (cases "root t")
  case None
  with ok show ?thesis
    by (auto simp: Remove_null trie_ok_def)
next
  case (Some r)
  let ?h1 = "h @ [Clone (h ! r)]"
  from ok Some have closed: "heap_closed h" and r: "r < length h"
    by (simp_all add: trie_ok_def)
  note ps = path_state_root_Some [OF ok Some]
  show ?thesis
  proof (cases "key = []")
    case True
    with none Some have "node_value (h ! r) = None"
      by (simp add: trie_lookup_def)
    then have "Remove h t key = Inr (?h1, t)"
      using True Some by (simp add: Remove_empty_key)
    moreover have "heap_closed ?h1"
      using closed _ kids_from_path_state [OF ps] by (rule kids_from_closed) simp
    ultimately show ?thesis by simp
  next
    case False
    obtain hf st where rp: "remove_path pr ?h1 (length h) key = (hf, st)"
      by (cases "remove_path pr ?h1 (length h) key")
    note sh = remove_path_shape [OF ps rp]
    from remove_path_lookup [OF ps False rp] none Some
    have "st = Abort"
      by (simp add: root_clone_lookup [OF ok Some] trie_lookup_def)
    with rp have "Remove h t key = Inr (hf, t)"
      using False Some by (intro Remove_abort) simp_all
    moreover have pre: "prefix h hf"
      using ps conjunct1 [OF sh] conjunct1 [OF conjunct2 [OF sh]] by (rule shape_prefix)
    moreover have "heap_closed hf"
      using closed pre by (rule kids_from_closed) (use sh in simp)
    ultimately show ?thesis by simp
  qed
qed

text \<open>\<open>Remove\<close> of a key that holds a value.\<close>

lemma Remove_changes:
  assumes ok: "trie_ok h t" and some: "trie_lookup h t key \<noteq> None"
  shows "\<exists>hf. Remove h t key = Inr (hf, Trie (Some (length h)))
           \<and> prefix h hf \<and> trie_ok hf (Trie (Some (length h)))
           \<and> (\<forall>key'. trie_lookup hf (Trie (Some (length h))) key' =
                  (if key' = key then None else trie_lookup h t key'))
           \<and> (length key \<le> 2 ^ 31 \<longrightarrow> pruned_below_root h t \<longrightarrow>
                  pruned_below_root hf (Trie (Some (length h))))"
proof -
  from some obtain r where Some: "root t = Some r"
    by (auto simp: trie_lookup_def split: option.splits)
  let ?h1 = "h @ [Clone (h ! r)]"
  let ?t' = "Trie (Some (length h))"
  from ok Some have closed: "heap_closed h" and r: "r < length h"
    and rv: "node_value (h ! r) = None"
    by (simp_all add: trie_ok_def)
  from some Some rv have key: "key \<noteq> []"
    by (auto simp: trie_lookup_def)
  note ps = path_state_root_Some [OF ok Some]
  from Remove_general [OF ok Some key] obtain pr
    where pr: "length key \<le> 2 ^ 31 \<Longrightarrow> pr"
      and gen: "Remove h t key =
             (case remove_path pr ?h1 (length h) key of
                (hf, Abort) \<Rightarrow> Inr (hf, t)
              | (hf, st) \<Rightarrow> Inr (hf, ?t'))"
    by blast
  obtain hf st where rp: "remove_path pr ?h1 (length h) key = (hf, st)"
    by (cases "remove_path pr ?h1 (length h) key")
  note sh = remove_path_shape [OF ps rp]
  note lk = remove_path_lookup [OF ps key rp]
  have live: "st \<noteq> Abort"
    using lk some Some by (simp add: root_clone_lookup [OF ok Some] trie_lookup_def)
  have rem: "Remove h t key = Inr (hf, ?t')"
    using gen live unfolding rp by (cases st) simp_all
  have pre: "prefix h hf"
    using ps conjunct1 [OF sh] conjunct1 [OF conjunct2 [OF sh]] by (rule shape_prefix)
  have "heap_closed hf"
    using closed pre by (rule kids_from_closed) (use sh in simp)
  then have ok': "trie_ok hf ?t'"
    using sh rv by (simp add: trie_ok_def)
  have look: "trie_lookup hf ?t' key' = (if key' = key then None else trie_lookup h t key')"
    for key'
    using lk live Some by (simp add: root_clone_lookup [OF ok Some] trie_lookup_def)
  have below: "pruned_below_root hf ?t'" if "length key \<le> 2 ^ 31" "pruned_below_root h t"
  proof -
    from that(2) Some have "below_ok h r"
      by (simp add: pruned_below_root_def)
    with ok Some have "below_ok ?h1 (length h)"
      by (rule root_clone_below)
    with ps have "below_ok hf (length h)"
      using rp [unfolded pr [OF that(1), THEN eqTrueI]] live by (rule remove_path_below)
    then show ?thesis
      by (simp add: pruned_below_root_def)
  qed
  from rem pre ok' look below show ?thesis
    by blast
qed

text \<open>When the node of the key has children, it is replaced by a plain node with the
  same children.\<close>

lemma Remove_strips:
  assumes ok: "trie_ok h t" and Some: "root t = Some r" and w: "walk h r key = Some a"
    and val: "node_value (h ! a) \<noteq> None" and kids: "children (h ! a) \<noteq> []"
  shows "\<exists>hf x. Remove h t key = Inr (hf, Trie (Some (length h)))
           \<and> walk hf (length h) key = Some x \<and> hf ! x = TrieNode1 (children (h ! a))"
proof -
  let ?h1 = "h @ [Clone (h ! r)]"
  from ok Some have closed: "heap_closed h" and r: "r < length h"
    and rv: "node_value (h ! r) = None"
    by (simp_all add: trie_ok_def)
  from w val rv have key: "key \<noteq> []"
    by auto
  then obtain e ks where eks: "key = e # ks" by (cases key) auto
  have some: "trie_lookup h t key \<noteq> None"
    using Some w val by (simp add: trie_lookup_def lookup_def)
  note ps = path_state_root_Some [OF ok Some]
  from Remove_general [OF ok Some key] obtain pr
    where gen: "Remove h t key =
             (case remove_path pr ?h1 (length h) key of
                (hf, Abort) \<Rightarrow> Inr (hf, t)
              | (hf, st) \<Rightarrow> Inr (hf, Trie (Some (length h))))"
    by blast
  obtain hf st where rp: "remove_path pr ?h1 (length h) key = (hf, st)"
    by (cases "remove_path pr ?h1 (length h) key")
  have live: "st \<noteq> Abort"
    using remove_path_lookup [OF ps key rp] some Some
    by (simp add: root_clone_lookup [OF ok Some] trie_lookup_def)
  have rem: "Remove h t key = Inr (hf, Trie (Some (length h)))"
    using gen live unfolding rp by (cases st) simp_all
  have eq: "map_of (children (?h1 ! length h)) e = map_of (children (h ! r)) e"
    by simp
  have kb: "kids_below (length h) (h ! r)"
    using closed r by (rule heap_closed_nth)
  have p1: "prefix h ?h1" and p2: "prefix h h"
    by simp_all
  note wa = walk_agree [OF closed p1 p2 eq kb]
  have w1: "walk ?h1 (length h) key = Some a"
    using wa(1) [of ks] w eks by simp
  have same: "?h1 ! a = h ! a"
    using wa(2) [of ks a] w eks by simp
  from remove_path_strip [OF ps key w1 _ _ rp] val kids same
  obtain x where "walk hf (length h) key = Some x" "hf ! x = TrieNode1 (children (h ! a))"
    by auto
  with rem show ?thesis by blast
qed

lemma Put_pruned:
  assumes ok: "trie_ok h t" and key: "key \<noteq> []" and below: "pruned_below_root h t"
  shows "\<exists>hf. Put h t T key v = Inr (hf, Trie (Some (length h)))
           \<and> pruned hf (Trie (Some (length h)))"
proof -
  let ?h1 = "h @ [root_copy h t]"
  let ?hf = "put_path ?h1 (length h) key T v"
  note ps = path_state_root [OF ok]
  have put: "Put h t T key v = Inr (?hf, Trie (Some (length h)))"
    using Put_nonempty [OF key, of h t T v] by (simp add: root_copy_def)
  have "below_ok ?h1 (length h)"
  proof (cases "root t")
    case None
    then have "children (?h1 ! length h) = []"
      by (simp add: root_copy_def)
    then show ?thesis by (rule below_ok_no_children)
  next
    case (Some r)
    with below have "below_ok h r"
      by (simp add: pruned_below_root_def)
    with ok Some show ?thesis
      using root_clone_below by (simp add: root_copy_def)
  qed
  with ps key have "below_ok ?hf (length h)"
    by (rule put_path_below)
  moreover from put_path_shape [OF ps key, of T v]
  have "children (?hf ! length h) \<noteq> []"
    by (simp add: Let_def)
  ultimately have "pruned ?hf (Trie (Some (length h)))"
    by (simp add: pruned_iff nonempty_node_def)
  with put show ?thesis by blast
qed

section \<open>Missing links\<close>

lemma walk_None_iff:
  "walk h r key = None \<longleftrightarrow>
     (\<exists>i<length key. \<exists>a. walk h r (take i key) = Some a
                          \<and> map_of (children (h ! a)) (key ! i) = None)"
proof (induction key arbitrary: r)
  case Nil
  then show ?case by simp
next
  case (Cons c cs)
  show ?case
  proof (cases "map_of (children (h ! r)) c")
    case None
    have "walk h r (take 0 (c # cs)) = Some r \<and> map_of (children (h ! r)) ((c # cs) ! 0) = None"
      using None by simp
    then have "\<exists>i<length (c # cs). \<exists>a. walk h r (take i (c # cs)) = Some a
                 \<and> map_of (children (h ! a)) ((c # cs) ! i) = None"
      by (intro exI [of _ 0] exI [of _ r]) simp
    with None show ?thesis by simp
  next
    case (Some b)
    have "(\<exists>i<length (c # cs). \<exists>a. walk h r (take i (c # cs)) = Some a
                 \<and> map_of (children (h ! a)) ((c # cs) ! i) = None)
          \<longleftrightarrow> (\<exists>j<length cs. \<exists>a. walk h b (take j cs) = Some a
                 \<and> map_of (children (h ! a)) (cs ! j) = None)"
      (is "?L \<longleftrightarrow> ?R")
    proof
      assume ?L
      then obtain i a where i: "i < length (c # cs)"
        and w: "walk h r (take i (c # cs)) = Some a"
        and m: "map_of (children (h ! a)) ((c # cs) ! i) = None"
        by blast
      show ?R
      proof (cases i)
        case 0
        with w m Some show ?thesis by simp
      next
        case (Suc j)
        with i w m Some show ?thesis
          by (intro exI [of _ j]) auto
      qed
    next
      assume ?R
      then obtain j a where j: "j < length cs"
        and w: "walk h b (take j cs) = Some a"
        and m: "map_of (children (h ! a)) (cs ! j) = None"
        by blast
      then show ?L
        using Some by (intro exI [of _ "Suc j"] exI [of _ a]) simp
    qed
    with Cons.IH [of b] Some show ?thesis by simp
  qed
qed

lemma terminal_None_iff: "terminal h t key = None \<longleftrightarrow> link_missing h t key"
proof (cases "root t")
  case None
  then show ?thesis by (simp add: terminal_def link_missing_def)
next
  case (Some r)
  then show ?thesis
    using walk_None_iff [of h r key] by (simp add: terminal_def link_missing_def)
qed

lemma trie_lookup_terminal:
  "trie_lookup h t key = (case terminal h t key of None \<Rightarrow> None | Some a \<Rightarrow> node_value (h ! a))"
  by (simp add: trie_lookup_def terminal_def lookup_def split: option.splits)

lemma Get_terminal:
  "Get h t T key = (case terminal h t key of None \<Rightarrow> None | Some a \<Rightarrow> value_as T (h ! a))"
  by (simp add: Get_def terminal_def split: option.splits)

lemma pruned_below_root_prefix:
  assumes "trie_ok h t" "prefix h hf"
  shows "pruned_below_root hf t = pruned_below_root h t"
proof (cases "root t")
  case None
  then show ?thesis by (simp add: pruned_below_root_def)
next
  case (Some r)
  with assms(1) have "heap_closed h" "r < length h"
    by (simp_all add: trie_ok_def)
  from below_ok_prefix(1) [OF this(1) assms(2) this(2)] Some show ?thesis
    by (simp add: pruned_below_root_def)
qed

section \<open>The store\<close>

lemma store_ok_init: "store_ok TrieStore0"
  by (simp add: store_ok_def TrieStore0_def trie_ok_def heap_closed_def)

lemma store_ok_last: "store_ok s \<Longrightarrow> trie_ok (nodes s) (last (snapshots s))"
  by (simp add: store_ok_def)

lemma store_ok_extend:
  assumes "store_ok s" "prefix (nodes s) hf" "heap_closed hf"
  shows "store_ok \<lparr>nodes = hf, snapshots = snapshots s\<rparr>"
    and "trie_ok hf t' \<Longrightarrow> store_ok \<lparr>nodes = hf, snapshots = snapshots s @ [t']\<rparr>"
proof -
  have old: "trie_ok hf t" if "t \<in> set (snapshots s)" for t
    using assms that by (auto simp: store_ok_def intro: trie_ok_prefix)
  show "store_ok \<lparr>nodes = hf, snapshots = snapshots s\<rparr>"
    using assms(1) old by (simp add: store_ok_def)
  show "store_ok \<lparr>nodes = hf, snapshots = snapshots s @ [t']\<rparr>" if "trie_ok hf t'"
    using old that by (auto simp: store_ok_def)
qed

lemma Store_Put_ok:
  assumes ok: "store_ok s" and key: "key \<noteq> []"
  shows "\<exists>s'. Store_Put s T key v = Inr (s', length (snapshots s))
           \<and> store_ok s' \<and> prefix (nodes s) (nodes s')
           \<and> snapshots s' = snapshots s @ [Trie (Some (length (nodes s)))]
           \<and> Get (nodes s') (Trie (Some (length (nodes s)))) T key = Some v"
proof -
  let ?t' = "Trie (Some (length (nodes s)))"
  from Put_ok [OF store_ok_last [OF ok] key, of T v] obtain hf
    where put: "Put (nodes s) (last (snapshots s)) T key v = Inr (hf, ?t')"
      and pre: "prefix (nodes s) hf" and tok: "trie_ok hf ?t'"
      and get: "Get hf ?t' T key = Some v"
    by blast
  from tok have closed: "heap_closed hf"
    by (simp add: trie_ok_def)
  let ?s' = "\<lparr>nodes = hf, snapshots = snapshots s @ [?t']\<rparr>"
  have "Store_Put s T key v = Inr (?s', length (snapshots s))"
    using ok put by (simp add: Store_Put_def store_ok_def Let_def size_minus_1_def)
  moreover have "store_ok ?s'"
    using ok pre closed tok by (rule store_ok_extend(2))
  ultimately show ?thesis
    using pre get by (intro exI [of _ ?s']) simp
qed

lemma Store_Remove_ok:
  assumes ok: "store_ok s"
  shows "\<exists>s' n. Store_Remove s key = Inr (s', n)
           \<and> store_ok s' \<and> prefix (nodes s) (nodes s')
           \<and> (if trie_lookup (nodes s) (last (snapshots s)) key = None
               then snapshots s' = snapshots s \<and> n = get_version s
               else snapshots s' = snapshots s @ [Trie (Some (length (nodes s)))]
                    \<and> n = length (snapshots s))"
proof (cases "trie_lookup (nodes s) (last (snapshots s)) key = None")
  case True
  from Remove_noop [OF store_ok_last [OF ok] True] obtain hf
    where rem: "Remove (nodes s) (last (snapshots s)) key = Inr (hf, last (snapshots s))"
      and pre: "prefix (nodes s) hf" and closed: "heap_closed hf"
    by blast
  let ?s' = "\<lparr>nodes = hf, snapshots = snapshots s\<rparr>"
  have "Store_Remove s key = Inr (?s', get_version s)"
    using ok rem by (simp add: Store_Remove_def store_ok_def Let_def get_version_def)
  moreover have "store_ok ?s'"
    using ok pre closed by (rule store_ok_extend(1))
  ultimately show ?thesis
    using pre True by (intro exI [of _ ?s'] exI [of _ "get_version s"]) simp
next
  case False
  let ?t' = "Trie (Some (length (nodes s)))"
  note tok = store_ok_last [OF ok]
  from Remove_changes [OF tok False] obtain hf
    where rem: "Remove (nodes s) (last (snapshots s)) key = Inr (hf, ?t')"
      and pre: "prefix (nodes s) hf" and tok': "trie_ok hf ?t'"
    by blast
  from tok' have closed: "heap_closed hf"
    by (simp add: trie_ok_def)
  have ne: "?t' \<noteq> last (snapshots s)"
    using tok by (cases "last (snapshots s)") (auto simp: trie_ok_def)
  let ?s' = "\<lparr>nodes = hf, snapshots = snapshots s @ [?t']\<rparr>"
  have "Store_Remove s key = Inr (?s', length (snapshots s))"
    using ok rem ne by (simp add: Store_Remove_def store_ok_def Let_def size_minus_1_def)
  moreover have "store_ok ?s'"
    using ok pre closed tok' by (rule store_ok_extend(2))
  ultimately show ?thesis
    using pre False by (intro exI [of _ ?s'] exI [of _ "length (snapshots s)"]) simp
qed

lemma apply_write_ok:
  assumes "store_ok s" "apply_write s w = Inr (s', n)"
  shows "store_ok s' \<and> prefix (nodes s) (nodes s') \<and> prefix (snapshots s) (snapshots s')"
proof (cases w)
  case (WPut T key v)
  have key: "key \<noteq> []"
  proof
    assume "key = []"
    with assms WPut show False
      by (simp add: Store_Put_def Put_empty store_ok_def)
  qed
  from Store_Put_ok [OF assms(1) key, of T v] assms(2) WPut show ?thesis
    by auto
next
  case (WRemove key)
  from Store_Remove_ok [OF assms(1), of key] assms(2) WRemove show ?thesis
    by (auto split: if_splits)
qed

lemma apply_writes_ok:
  assumes "store_ok s" "apply_writes s ws = Inr s'"
  shows "store_ok s' \<and> prefix (nodes s) (nodes s') \<and> prefix (snapshots s) (snapshots s')"
  using assms
proof (induction ws arbitrary: s)
  case Nil
  then show ?case by simp
next
  case (Cons w ws)
  from Cons.prems(2) obtain s1 n where w: "apply_write s w = Inr (s1, n)"
    and rest: "apply_writes s1 ws = Inr s'"
    by (auto split: sum.splits)
  note one = apply_write_ok [OF Cons.prems(1) w]
  from one have "store_ok s1" by simp
  from Cons.IH [OF this rest] one show ?case
    by (auto intro: prefix_order.trans)
qed

lemma snapshot_stable:
  assumes "store_ok s" "prefix (nodes s) (nodes s')" "prefix (snapshots s) (snapshots s')"
    "version < length (snapshots s)"
  shows "snapshots s' ! version = snapshots s ! version"
    and "Get (nodes s') (snapshots s' ! version) T key = Get (nodes s) (snapshots s ! version) T key"
proof -
  show same: "snapshots s' ! version = snapshots s ! version"
    using assms(3,4) by (rule prefix_nth)
  have "trie_ok (nodes s) (snapshots s ! version)"
    using assms(1,4) by (simp add: store_ok_def)
  then show "Get (nodes s') (snapshots s' ! version) T key
      = Get (nodes s) (snapshots s ! version) T key"
    unfolding same using assms(2) by (rule Get_prefix)
qed

lemma Store_Get_stable:
  assumes "store_ok s" "prefix (nodes s) (nodes s')" "prefix (snapshots s) (snapshots s')"
    "version < length (snapshots s)" "version \<noteq> SIZE_MAX"
  shows "Store_Get s' T key version = Store_Get s T key version"
proof -
  have "length (snapshots s) \<le> length (snapshots s')"
    using assms(3) by (rule prefix_length_le)
  with assms(4,5) snapshot_stable(1) [OF assms(1-4)]
    snapshot_stable(2) [OF assms(1-4), where T = T and key = key] show ?thesis
    by (simp add: Store_Get_def Let_def)
qed

section \<open>The example tries, computed\<close>

lemmas node_defs = TrieNode0_def TrieNode1_def TrieNodeWithValue_def Clone_def alloc_def
  set_child_def erase_child_def

lemma Put_heap_a: "Put [] (Trie None) ''int'' ''a'' 100 = Inr (heap_a, Trie (Some 0))"
  by (simp add: Put_def node_defs heap_a_def)

lemma Put_heap_ab: "Put heap_a (Trie (Some 0)) ''int'' ''ab'' 200 = Inr (heap_ab, Trie (Some 3))"
  by (simp add: Put_def node_defs heap_a_def heap_ab_def)

lemma Store_Put_store_a: "Store_Put TrieStore0 ''int'' ''a'' 100 = Inr (store_a, 1)"
  by (simp add: Store_Put_def TrieStore0_def Put_heap_a store_a_def size_minus_1_def)

lemma Store_Put_store_ab: "Store_Put store_a ''int'' ''ab'' 200 = Inr (store_ab, 2)"
  by (simp add: Store_Put_def store_a_def Put_heap_ab store_ab_def size_minus_1_def)

lemma trie_ok_heap_a: "trie_ok heap_a (Trie (Some 0))"
  by (simp add: trie_ok_def heap_closed_def kids_below_def heap_a_def)

lemma trie_ok_heap_ab: "trie_ok heap_ab (Trie (Some 3))"
  by (simp add: trie_ok_def heap_closed_def kids_below_def heap_a_def heap_ab_def)

lemma terminal_heap_ab:
  "terminal heap_ab (Trie (Some 3)) ''a'' = Some 4"
  "terminal heap_ab (Trie (Some 3)) ''ab'' = Some 6"
  "terminal heap_ab (Trie (Some 3)) ''b'' = None"
  by (simp_all add: terminal_def heap_a_def heap_ab_def)

lemma nodes_heap_ab:
  "heap_ab ! 4 = \<lparr>children = [(CHR ''b'', 6)], is_value_node = True,
                   node_value = Some (''int'', 100)\<rparr>"
  "heap_ab ! 6 = \<lparr>children = [], is_value_node = True, node_value = Some (''int'', 200)\<rparr>"
  by (simp_all add: heap_a_def heap_ab_def)

lemma pruned_heap_a: "pruned heap_a (Trie (Some 0))"
proof -
  have "below_ok heap_a 2"
    by (rule below_ok_no_children) (simp add: heap_a_def)
  then have "below_ok heap_a 0"
    unfolding below_ok_iff [of heap_a 0] by (simp add: heap_a_def nonempty_node_def)
  then show ?thesis
    by (simp add: pruned_iff nonempty_node_def heap_a_def)
qed

lemma pruned_heap_ab: "pruned heap_ab (Trie (Some 3))"
proof -
  have "below_ok heap_ab 6"
    by (rule below_ok_no_children) (simp add: heap_a_def heap_ab_def)
  then have "below_ok heap_ab 4"
    unfolding below_ok_iff [of heap_ab 4] by (simp add: heap_a_def heap_ab_def nonempty_node_def)
  then have "below_ok heap_ab 3"
    unfolding below_ok_iff [of heap_ab 3] by (simp add: heap_a_def heap_ab_def nonempty_node_def)
  then show ?thesis
    by (simp add: pruned_iff nonempty_node_def heap_a_def heap_ab_def)
qed

lemma Remove_heap_a:
  "Remove heap_a (Trie (Some 0)) ''a'' =
     Inr (heap_a @
          [\<lparr>children = [], is_value_node = False, node_value = None\<rparr>,
           \<lparr>children = [], is_value_node = False, node_value = Some (''int'', 100)\<rparr>],
          Trie (Some 3))"
proof -
  have "cleanup_start [x] = 0" for x
    by (simp add: cleanup_start_def)
  then show ?thesis
    by (simp add: Remove_def Remove_tail_def node_defs heap_a_def cleanup_zero)
qed

lemma Get_heap_a: "Get heap_a (Trie (Some 0)) ''int'' ''a'' = Some 100"
  by (simp add: Get_def value_as_def heap_a_def)

lemma Get_heap_ab: "Get heap_ab (Trie (Some 3)) ''int'' ''ab'' = Some 200"
  by (simp add: Get_def value_as_def heap_a_def heap_ab_def)

lemma Store_Get_store_a_1:
  "Store_Get store_a ''int'' ''a'' 1 = Some (ValueGuard (Trie (Some 0)) 100)"
  by (simp add: Store_Get_def store_a_def SIZE_MAX_def Get_heap_a)

section \<open>The claims\<close>

subsection \<open>C1: round trip\<close>

lemma Put_Get_roundtrip:
  assumes "trie_ok h t" "key \<noteq> []"
  shows "\<exists>hf t'. Put h t T key v = Inr (hf, t') \<and> Get hf t' T key = Some v"
  using Put_ok [OF assms, of T v] by blast

text \<open>
  C1.  The claim: for every trie, every key, the empty key included, and every value \<open>v\<close>
  of type \<open>T\<close>, \<open>Put\<close> followed by \<open>Get<T>\<close> of the same key returns \<open>v\<close>.  With a
  non-empty key that is \<open>Put_Get_roundtrip\<close>.  With the empty key \<open>Put\<close> writes through
  the null pointer \<open>copy\<close> and returns no trie at all; the theorem evaluates the empty
  trie, the empty key and an integer value.
\<close>

theorem Put_Get_empty_key_fails:
  "Put ([] :: (string, int) heap) (Trie None) ''int'' [] 7 = Inl NullDereference
   \<and> \<not> (\<exists>hf t'. Put ([] :: (string, int) heap) (Trie None) ''int'' [] 7 = Inr (hf, t')
              \<and> Get hf t' ''int'' [] = Some 7)"
  by (simp add: Put_empty)

subsection \<open>C2: delete, then miss\<close>

text \<open>
  C2.  For every trie and every key present in it as a value (the key resolves to a node
  that carries a value), \<open>Remove\<close> returns a trie in which \<open>Get\<close> of that key is
  absent under every type, and every other key maps to what it mapped to before.  When
  the node of the key has children, the result has, at the key, a plain node
  (\<^verbatim>\<open>TrieNode\<close>, no value, flag off) with the same children.
\<close>

theorem Remove_then_Get_absent:
  assumes "trie_ok h t" "terminal h t key = Some a" "node_value (h ! a) \<noteq> None"
  shows "\<exists>hf t'. Remove h t key = Inr (hf, t')
           \<and> (\<forall>T. Get hf t' T key = None)
           \<and> (\<forall>key' T. key' \<noteq> key \<longrightarrow> Get hf t' T key' = Get h t T key')
           \<and> (children (h ! a) \<noteq> [] \<longrightarrow>
                (\<exists>a'. terminal hf t' key = Some a' \<and> hf ! a' = TrieNode1 (children (h ! a))))"
proof -
  let ?t' = "Trie (Some (length h))"
  from assms(2) obtain r where r: "root t = Some r" and w: "walk h r key = Some a"
    by (auto simp: terminal_def split: option.splits)
  have some: "trie_lookup h t key \<noteq> None"
    using assms(2,3) by (simp add: trie_lookup_terminal)
  from Remove_changes [OF assms(1) some] obtain hf
    where rem: "Remove h t key = Inr (hf, ?t')"
      and look: "\<And>key'. trie_lookup hf ?t' key' =
                  (if key' = key then None else trie_lookup h t key')"
    by blast
  have "Get hf ?t' T key = None" for T
    using look [of key] by (simp add: Get_trie_lookup)
  moreover have "Get hf ?t' T key' = Get h t T key'" if "key' \<noteq> key" for key' T
    using look [of key'] that by (simp add: Get_trie_lookup)
  moreover have "\<exists>a'. terminal hf ?t' key = Some a' \<and> hf ! a' = TrieNode1 (children (h ! a))"
    if "children (h ! a) \<noteq> []"
    using Remove_strips [OF assms(1) r w assms(3) that] rem by (auto simp: terminal_def)
  ultimately show ?thesis
    using rem by blast
qed

theorem Remove_then_Get_absent_witness:
  "trie_ok heap_ab (Trie (Some 3))
   \<and> terminal heap_ab (Trie (Some 3)) ''a'' = Some 4
   \<and> node_value (heap_ab ! 4) \<noteq> None
   \<and> children (heap_ab ! 4) \<noteq> []
   \<and> (\<exists>hf t'. Remove heap_ab (Trie (Some 3)) ''a'' = Inr (hf, t')
         \<and> Get hf t' ''int'' ''a'' = None
         \<and> Get hf t' ''int'' ''ab'' = Get heap_ab (Trie (Some 3)) ''int'' ''ab''
         \<and> (\<exists>a'. terminal hf t' ''a'' = Some a'
                \<and> hf ! a' = TrieNode1 (children (heap_ab ! 4))))"
proof -
  have v: "node_value (heap_ab ! 4) \<noteq> None" and k: "children (heap_ab ! 4) \<noteq> []"
    by (simp_all add: nodes_heap_ab)
  from Remove_then_Get_absent [OF trie_ok_heap_ab terminal_heap_ab(1) v] k
  obtain hf t' where "Remove heap_ab (Trie (Some 3)) ''a'' = Inr (hf, t')"
    "Get hf t' ''int'' ''a'' = None"
    "Get hf t' ''int'' ''ab'' = Get heap_ab (Trie (Some 3)) ''int'' ''ab''"
    "\<exists>a'. terminal hf t' ''a'' = Some a' \<and> hf ! a' = TrieNode1 (children (heap_ab ! 4))"
    by auto
  with trie_ok_heap_ab terminal_heap_ab(1) v k show ?thesis
    by blast
qed

subsection \<open>C3: totality of Put\<close>

text \<open>
  C3.  The claim: \<open>Put\<close> succeeds for every trie, every key, the empty key included, and
  every value, and so does the store's \<open>Put\<close>.  On the empty key both fail, for every
  trie, every value and the initial store: the null dereference of \<open>Put\<close>.
\<close>

theorem Put_empty_key_null_dereference:
  "Put h t T [] v = Inl NullDereference
   \<and> Store_Put TrieStore0 T [] v = Inl NullDereference"
  by (simp add: Put_empty Store_Put_def TrieStore0_def)

subsection \<open>C4: pruning\<close>

text \<open>
  C4, as stated: no node without a value and without children in a published trie, an
  invariant that \<open>Put\<close> and \<open>Remove\<close> keep, also when \<open>Remove\<close> of a one-character key
  leaves the root with nothing.  The trie that \<open>Put<int>("a", 100)\<close> builds from the
  empty trie has the invariant; \<open>Remove("a")\<close> returns a trie whose root is a node
  with no value and no children.
\<close>

theorem Remove_leaves_empty_root:
  "Put [] (Trie None) ''int'' ''a'' 100 = Inr (heap_a, Trie (Some 0))
   \<and> pruned heap_a (Trie (Some 0))
   \<and> Remove heap_a (Trie (Some 0)) ''a'' =
        Inr (heap_a @
             [\<lparr>children = [], is_value_node = False, node_value = None\<rparr>,
              \<lparr>children = [], is_value_node = False, node_value = Some (''int'', 100)\<rparr>],
             Trie (Some 3))
   \<and> \<not> pruned
         (heap_a @
          [\<lparr>children = [], is_value_node = False, node_value = None\<rparr>,
           \<lparr>children = [], is_value_node = False, node_value = Some (''int'', 100)\<rparr>])
         (Trie (Some 3))"
proof -
  have "\<not> pruned
         (heap_a @
          [\<lparr>children = [], is_value_node = False, node_value = None\<rparr>,
           \<lparr>children = [], is_value_node = False, node_value = Some (''int'', 100)\<rparr>])
         (Trie (Some 3))"
    by (simp add: pruned_iff nonempty_node_def heap_a_def)
  with Put_heap_a pruned_heap_a Remove_heap_a show ?thesis
    by (simp only: simp_thms)
qed

text \<open>
  C4, amended.  The invariant that holds is the one for the nodes below the root: in a
  trie where every node other than the root has a value or a child, a trie returned by
  \<open>Put\<close> has the property for all its nodes, the root included, and the trie returned by
  \<open>Remove\<close> has it for the nodes below the root, for a key of at most \<open>2 ^ 31\<close>
  characters (the index of the cleaning loop is an \<^verbatim>\<open>int\<close>).  The root is exempt:
  \<open>Remove\<close> never replaces it by the null root.
\<close>

theorem pruned_below_root_preserved:
  assumes "trie_ok h t" "pruned_below_root h t"
  shows "(\<forall>hf t'. Put h t T key v = Inr (hf, t') \<longrightarrow> pruned hf t')
       \<and> (\<exists>hf t'. Remove h t key = Inr (hf, t')
              \<and> (length key \<le> 2 ^ 31 \<longrightarrow> pruned_below_root hf t'))"
proof (intro conjI allI impI)
  fix hf t' assume put: "Put h t T key v = Inr (hf, t')"
  then have "key \<noteq> []"
    by (auto simp: Put_empty)
  from Put_pruned [OF assms(1) this assms(2), of T v] put show "pruned hf t'"
    by auto
next
  show "\<exists>hf t'. Remove h t key = Inr (hf, t')
          \<and> (length key \<le> 2 ^ 31 \<longrightarrow> pruned_below_root hf t')"
  proof (cases "trie_lookup h t key = None")
    case True
    from Remove_noop [OF assms(1) True] obtain hf
      where "Remove h t key = Inr (hf, t)" "prefix h hf"
      by blast
    with pruned_below_root_prefix [OF assms(1) this(2)] assms(2) show ?thesis
      by auto
  next
    case False
    from Remove_changes [OF assms(1) False] assms(2) show ?thesis
      by blast
  qed
qed

theorem pruned_below_root_preserved_witness:
  "trie_ok heap_ab (Trie (Some 3))
   \<and> pruned_below_root heap_ab (Trie (Some 3))
   \<and> (\<exists>hf t'. Put heap_ab (Trie (Some 3)) ''int'' ''ab'' 7 = Inr (hf, t') \<and> pruned hf t')
   \<and> (\<exists>hf t'. Remove heap_ab (Trie (Some 3)) ''ab'' = Inr (hf, t')
         \<and> pruned_below_root hf t')"
proof -
  have below: "pruned_below_root heap_ab (Trie (Some 3))"
    using pruned_heap_ab by (simp add: pruned_iff pruned_below_root_def)
  note inst = pruned_below_root_preserved [OF trie_ok_heap_ab below, of "''int''" "''ab''" 7]
  from Put_ok [OF trie_ok_heap_ab, of "''ab''" "''int''" 7] obtain hf
    where "Put heap_ab (Trie (Some 3)) ''int'' ''ab'' 7 = Inr (hf, Trie (Some (length heap_ab)))"
    by auto
  with inst have "\<exists>hf t'. Put heap_ab (Trie (Some 3)) ''int'' ''ab'' 7 = Inr (hf, t') \<and> pruned hf t'"
    by blast
  moreover from inst
  have "\<exists>hf t'. Remove heap_ab (Trie (Some 3)) ''ab'' = Inr (hf, t') \<and> pruned_below_root hf t'"
    by auto
  ultimately show ?thesis
    using trie_ok_heap_ab below by blast
qed

subsection \<open>C5: Remove of a key that holds nothing\<close>

text \<open>
  C5.  For every trie and every key that is absent from it or resolves to a node without a
  value, \<open>Remove\<close> returns the receiver itself: the same root pointer.  So the store's
  \<open>Remove\<close> appends no version and returns the latest version number.
\<close>

theorem Remove_noop_identity:
  assumes "trie_ok h t"
    and "terminal h t key = None \<or> (\<exists>a. terminal h t key = Some a \<and> node_value (h ! a) = None)"
  shows "\<exists>hf. Remove h t key = Inr (hf, t)
           \<and> (\<forall>s. nodes s = h \<and> snapshots s \<noteq> [] \<and> last (snapshots s) = t \<longrightarrow>
                  Store_Remove s key =
                    Inr (\<lparr>nodes = hf, snapshots = snapshots s\<rparr>, get_version s))"
proof -
  have none: "trie_lookup h t key = None"
    using assms(2) by (auto simp: trie_lookup_terminal)
  from Remove_noop [OF assms(1) none] obtain hf where rem: "Remove h t key = Inr (hf, t)"
    by blast
  have "Store_Remove s key = Inr (\<lparr>nodes = hf, snapshots = snapshots s\<rparr>, get_version s)"
    if "nodes s = h \<and> snapshots s \<noteq> [] \<and> last (snapshots s) = t" for s :: "('a, 'b) TrieStore"
    using that rem by (simp add: Store_Remove_def Let_def get_version_def)
  with rem show ?thesis by blast
qed

theorem Remove_noop_identity_witness:
  "trie_ok heap_ab (Trie (Some 3))
   \<and> (terminal heap_ab (Trie (Some 3)) ''b'' = None
        \<or> (\<exists>a. terminal heap_ab (Trie (Some 3)) ''b'' = Some a \<and> node_value (heap_ab ! a) = None))
   \<and> (\<exists>hf. Remove heap_ab (Trie (Some 3)) ''b'' = Inr (hf, Trie (Some 3))
         \<and> Store_Remove store_ab ''b'' = Inr (\<lparr>nodes = hf, snapshots = snapshots store_ab\<rparr>, 2))"
proof -
  have hyp: "terminal heap_ab (Trie (Some 3)) ''b'' = None
        \<or> (\<exists>a. terminal heap_ab (Trie (Some 3)) ''b'' = Some a \<and> node_value (heap_ab ! a) = None)"
    by (simp add: terminal_heap_ab)
  have s: "nodes store_ab = heap_ab \<and> snapshots store_ab \<noteq> []
           \<and> last (snapshots store_ab) = Trie (Some 3)"
    by (simp add: store_ab_def)
  have v: "get_version store_ab = 2"
    by (simp add: get_version_def store_ab_def size_minus_1_def)
  from Remove_noop_identity [OF trie_ok_heap_ab hyp] s v
  have "\<exists>hf. Remove heap_ab (Trie (Some 3)) ''b'' = Inr (hf, Trie (Some 3))
         \<and> Store_Remove store_ab ''b'' = Inr (\<lparr>nodes = hf, snapshots = snapshots store_ab\<rparr>, 2)"
    by metis
  with trie_ok_heap_ab hyp show ?thesis
    by blast
qed

subsection \<open>C6: what Get returns\<close>

text \<open>
  C6.  \<open>Get<T>\<close> returns absent exactly when a child link on the path of the key is
  missing (the root link of the empty trie included), or the node the key resolves to
  has no value, or it has a value of another type; otherwise it returns the stored value
  of type \<open>T\<close>.  \<open>Get\<close> has no failure branch: a type mismatch is a miss.
\<close>

theorem Get_semantics:
  "(Get h t T key = None \<longleftrightarrow>
      link_missing h t key
      \<or> (\<exists>a. terminal h t key = Some a
             \<and> (node_value (h ! a) = None
                \<or> (\<exists>T' v. node_value (h ! a) = Some (T', v) \<and> T' \<noteq> T))))
   \<and> (\<forall>v. Get h t T key = Some v \<longleftrightarrow>
           (\<exists>a. terminal h t key = Some a \<and> node_value (h ! a) = Some (T, v)))"
proof (cases "terminal h t key")
  case None
  then have "link_missing h t key"
    by (simp add: terminal_None_iff)
  with None show ?thesis
    by (simp add: Get_terminal)
next
  case (Some a)
  then have "\<not> link_missing h t key"
    using terminal_None_iff [of h t key] by simp
  with Some show ?thesis
    by (cases "node_value (h ! a)") (auto simp: Get_terminal value_as_def split: if_splits)
qed

theorem Get_semantics_witness:
  "Get heap_ab (Trie (Some 3)) ''int'' ''ab'' = Some 200
   \<and> Get heap_ab (Trie (Some 3)) ''std::string'' ''ab'' = None
   \<and> Get heap_ab (Trie (Some 3)) ''int'' ''b'' = None
   \<and> link_missing heap_ab (Trie (Some 3)) ''b''"
proof -
  have 1: "Get heap_ab (Trie (Some 3)) ''int'' ''ab'' = Some 200"
    using Get_semantics [of heap_ab "Trie (Some 3)" "''int''" "''ab''"]
    by (simp add: terminal_heap_ab nodes_heap_ab)
  have 2: "Get heap_ab (Trie (Some 3)) ''std::string'' ''ab'' = None"
    using Get_semantics [of heap_ab "Trie (Some 3)" "''std::string''" "''ab''"]
    by (simp add: terminal_heap_ab nodes_heap_ab)
  have "terminal heap_ab (Trie (Some 3)) ''b'' = None"
    by (rule terminal_heap_ab)
  then have 3: "link_missing heap_ab (Trie (Some 3)) ''b''"
    by (simp add: terminal_None_iff)
  then have "Get heap_ab (Trie (Some 3)) ''int'' ''b'' = None"
    using Get_semantics [of heap_ab "Trie (Some 3)" "''int''" "''b''"] by simp
  with 1 2 3 show ?thesis by simp
qed

subsection \<open>C7: the version sequence\<close>

text \<open>
  C7.  In every state that a sequence of writes reaches from the initial store, the
  version sequence is not empty and begins with the empty trie, so \<open>get_version\<close> is a
  valid index; later writes only append to it; and \<open>Get\<close> on a version already
  published returns after them what it returned before, in the trie and through the
  store (the version number \<open>SIZE_MAX\<close> is the store's word for "latest" and is looked
  at in C8 and C10).
\<close>

theorem store_versions_immutable:
  assumes "apply_writes TrieStore0 ws = Inr s" "apply_writes s ws' = Inr s'"
  shows "snapshots s \<noteq> [] \<and> snapshots s ! 0 = Trie None
       \<and> get_version s = length (snapshots s) - 1 \<and> get_version s < length (snapshots s)
       \<and> prefix (snapshots s) (snapshots s')
       \<and> (\<forall>version T key. version < length (snapshots s) \<longrightarrow>
             Get (nodes s') (snapshots s' ! version) T key
               = Get (nodes s) (snapshots s ! version) T key
             \<and> (version \<noteq> SIZE_MAX \<longrightarrow>
                  Store_Get s' T key version = Store_Get s T key version))"
proof -
  note init = apply_writes_ok [OF store_ok_init assms(1)]
  then have ok: "store_ok s"
    by blast
  note later = apply_writes_ok [OF ok assms(2)]
  then have pn: "prefix (nodes s) (nodes s')" and ps: "prefix (snapshots s) (snapshots s')"
    by blast+
  from ok have ne: "snapshots s \<noteq> []"
    by (simp add: store_ok_def)
  have first: "snapshots s ! 0 = Trie None"
    using prefix_nth [OF conjunct2 [OF conjunct2 [OF init]], of 0]
    by (simp add: TrieStore0_def)
  have gv: "get_version s = length (snapshots s) - 1"
    using ne by (simp add: get_version_def size_minus_1_def)
  have stable: "Get (nodes s') (snapshots s' ! version) T key
               = Get (nodes s) (snapshots s ! version) T key
             \<and> (version \<noteq> SIZE_MAX \<longrightarrow>
                  Store_Get s' T key version = Store_Get s T key version)"
    if "version < length (snapshots s)" for version T key
    using snapshot_stable(2) [OF ok pn ps that] Store_Get_stable [OF ok pn ps that]
    by simp
  from ne first gv ps stable show ?thesis
    by simp
qed

theorem store_versions_immutable_witness:
  "apply_writes TrieStore0 [WPut ''int'' ''a'' 100] = Inr store_a
   \<and> apply_writes store_a [WPut ''int'' ''ab'' 200] = Inr store_ab
   \<and> snapshots store_a \<noteq> [] \<and> snapshots store_a ! 0 = Trie None
   \<and> get_version store_a = 1
   \<and> prefix (snapshots store_a) (snapshots store_ab)
   \<and> Get (nodes store_ab) (snapshots store_ab ! 1) ''int'' ''a'' = Some 100
   \<and> Store_Get store_ab ''int'' ''a'' 1 = Some (ValueGuard (Trie (Some 0)) 100)"
proof -
  have w1: "apply_writes TrieStore0 [WPut ''int'' ''a'' 100] = Inr store_a"
    by (simp add: Store_Put_store_a)
  have w2: "apply_writes store_a [WPut ''int'' ''ab'' 200] = Inr store_ab"
    by (simp add: Store_Put_store_ab)
  note inst = store_versions_immutable [OF w1 w2]
  have len: "(1::nat) < length (snapshots store_a)" and neq: "(1::nat) \<noteq> SIZE_MAX"
    and at1: "snapshots store_a ! 1 = Trie (Some 0)" and n: "nodes store_a = heap_a"
    and v: "length (snapshots store_a) - 1 = 1"
    by (simp_all add: store_a_def SIZE_MAX_def)
  from inst have stable: "Get (nodes store_ab) (snapshots store_ab ! version) T key
               = Get (nodes store_a) (snapshots store_a ! version) T key
             \<and> (version \<noteq> SIZE_MAX \<longrightarrow>
                  Store_Get store_ab T key version = Store_Get store_a T key version)"
    if "version < length (snapshots store_a)" for version T key
    using that by blast
  from stable [OF len, of "''int''" "''a''"] neq
  have "Get (nodes store_ab) (snapshots store_ab ! 1) ''int'' ''a''
          = Get (nodes store_a) (snapshots store_a ! 1) ''int'' ''a''"
    and "Store_Get store_ab ''int'' ''a'' 1 = Store_Get store_a ''int'' ''a'' 1"
    by blast+
  then have g: "Get (nodes store_ab) (snapshots store_ab ! 1) ''int'' ''a'' = Some 100"
    and sg: "Store_Get store_ab ''int'' ''a'' 1 = Some (ValueGuard (Trie (Some 0)) 100)"
    by (simp_all only: at1 n Get_heap_a Store_Get_store_a_1)
  from inst have "snapshots store_a \<noteq> []" "snapshots store_a ! 0 = Trie None"
    "get_version store_a = length (snapshots store_a) - 1"
    "prefix (snapshots store_a) (snapshots store_ab)"
    by blast+
  with w1 w2 g sg v show ?thesis
    by (simp only: simp_thms)
qed

subsection \<open>C8: versions out of range, and the default version\<close>

text \<open>
  C8, as stated: \<open>Get\<close> of the store returns absent for every version number at or
  above the length of the version sequence.  \<open>SIZE_MAX\<close> is such a number in the store
  after \<open>Put<int>("a", 100)\<close>, which has two versions, and \<open>Get<int>("a", SIZE_MAX)\<close>
  returns 100: \<open>SIZE_MAX\<close> is \<^verbatim>\<open>size_t(-1)\<close>, which the code reads as "latest".
\<close>

theorem Store_Get_SIZE_MAX_not_absent:
  "Store_Put TrieStore0 ''int'' ''a'' 100 = Inr (store_a, 1)
   \<and> length (snapshots store_a) \<le> SIZE_MAX
   \<and> Store_Get store_a ''int'' ''a'' SIZE_MAX = Some (ValueGuard (Trie (Some 0)) 100)"
proof -
  have "length (snapshots store_a) \<le> SIZE_MAX"
    by (simp add: store_a_def SIZE_MAX_def)
  moreover have "Store_Get store_a ''int'' ''a'' SIZE_MAX = Some (ValueGuard (Trie (Some 0)) 100)"
    by (simp add: Store_Get_def store_a_def size_minus_1_def Get_heap_a)
  ultimately show ?thesis
    using Store_Put_store_a by simp
qed

text \<open>
  C8, amended.  \<open>Get\<close> of the store returns absent for every version number at or above
  the length of the version sequence other than \<open>SIZE_MAX\<close>; with the version argument
  omitted it looks the key up in the latest version, the one at the highest index.
\<close>

theorem Store_Get_version_handling:
  "(length (snapshots s) \<le> version \<and> version \<noteq> SIZE_MAX \<longrightarrow>
      Store_Get s T key version = None)
   \<and> (snapshots s \<noteq> [] \<longrightarrow>
        Store_Get_latest s T key = Store_Get s T key (length (snapshots s) - 1))"
proof (intro conjI impI)
  assume "length (snapshots s) \<le> version \<and> version \<noteq> SIZE_MAX"
  then show "Store_Get s T key version = None"
    by (simp add: Store_Get_def)
next
  assume ne: "snapshots s \<noteq> []"
  show "Store_Get_latest s T key = Store_Get s T key (length (snapshots s) - 1)"
  proof (cases "length (snapshots s) - 1 = SIZE_MAX")
    case True
    then show ?thesis
      by (simp only: Store_Get_latest_def)
  next
    case False
    with ne show ?thesis
      by (simp add: Store_Get_latest_def Store_Get_def size_minus_1_def)
  qed
qed

theorem Store_Get_version_handling_witness:
  "length (snapshots store_ab) \<le> 5 \<and> (5::nat) \<noteq> SIZE_MAX
   \<and> Store_Get store_ab ''int'' ''ab'' 5 = None
   \<and> snapshots store_ab \<noteq> []
   \<and> Store_Get_latest store_ab ''int'' ''ab'' = Store_Get store_ab ''int'' ''ab'' 2"
proof -
  have a: "length (snapshots store_ab) \<le> 5" and b: "(5::nat) \<noteq> SIZE_MAX"
    and c: "snapshots store_ab \<noteq> []" and d: "length (snapshots store_ab) - 1 = 2"
    by (simp_all add: store_ab_def SIZE_MAX_def)
  from Store_Get_version_handling [of store_ab 5 "''int''" "''ab''"] a b c d show ?thesis
    by simp
qed

subsection \<open>C10: the sentinel passed explicitly\<close>

text \<open>
  C10.  \<open>Get\<close> of the store with the version argument \<open>SIZE_MAX\<close> written out is the
  lookup in the latest version: it returns what \<open>Get\<close> of the last snapshot returns,
  never absent for being out of range.
\<close>

theorem Store_Get_sentinel_is_latest:
  assumes "snapshots s \<noteq> []"
  shows "Store_Get s T key SIZE_MAX =
           (case Get (nodes s) (last (snapshots s)) T key of
              None \<Rightarrow> None
            | Some v \<Rightarrow> Some (ValueGuard (last (snapshots s)) v))"
proof -
  from assms have lt: "\<not> length (snapshots s) \<le> length (snapshots s) - 1"
    by (cases "snapshots s") simp_all
  from assms have l: "last (snapshots s) = snapshots s ! (length (snapshots s) - Suc 0)"
    by (simp add: last_conv_nth)
  have "size_minus_1 (length (snapshots s)) = length (snapshots s) - 1"
    using assms by (simp add: size_minus_1_def)
  with lt show ?thesis
    unfolding l by (simp add: Store_Get_def Let_def)
qed

theorem Store_Get_sentinel_is_latest_witness:
  "snapshots store_ab \<noteq> []
   \<and> Store_Get store_ab ''int'' ''ab'' SIZE_MAX = Some (ValueGuard (Trie (Some 3)) 200)"
proof -
  have ne: "snapshots store_ab \<noteq> []"
    and l: "last (snapshots store_ab) = Trie (Some 3)" and n: "nodes store_ab = heap_ab"
    by (simp_all add: store_ab_def)
  from Store_Get_sentinel_is_latest [OF ne, of "''int''" "''ab''"] ne show ?thesis
    by (simp add: l n Get_heap_ab)
qed

end
